theory Spec2Isabelle
  imports Main
begin

section \<open>The AVL tree of avl.py\<close>

subsection \<open>Nodes, errors and results\<close>

text \<open>
  An \<^verbatim>\<open>AVLTreeNode\<close> object carries \<^verbatim>\<open>key\<close>, \<^verbatim>\<open>item\<close>, \<^verbatim>\<open>left\<close>, \<^verbatim>\<open>right\<close>,
  \<^verbatim>\<open>height\<close> and \<^verbatim>\<open>tree_size\<close>. A child slot holding \<^verbatim>\<open>None\<close> is \<open>Null\<close>.
  The fields of \<open>Node\<close> are, in order: left, key, item, height, tree_size, right.
  Every node has exactly one owner, so the object graph below a node is the
  value of this datatype. The cached fields are Python integers, hence \<open>int\<close>.
\<close>

datatype ('k, 'i) anode =
  Null
  | Node "('k, 'i) anode" 'k 'i int int "('k, 'i) anode"

text \<open>
  The exceptions the code can raise. In the tree: \<^verbatim>\<open>KeyError\<close> (duplicate
  insert), \<^verbatim>\<open>ValueError\<close> (deleting a missing key) and \<^verbatim>\<open>AttributeError\<close>
  (reading a field of \<^verbatim>\<open>None\<close>). In the hash table: \<^verbatim>\<open>KeyError\<close> (probe
  failure), \<^verbatim>\<open>ZeroDivisionError\<close> (a modulus of 0 in \<^verbatim>\<open>hash\<close>),
  \<^verbatim>\<open>TypeError\<close> (\<^verbatim>\<open>None\<close> used as an array length or subscripted) and
  \<^verbatim>\<open>IndexError\<close> (an array index out of range).
\<close>

datatype error =
  KeyError | ValueError | AttributeError | ZeroDivisionError | TypeError | IndexError

text \<open>
  The recursive helpers mutate nodes in place and bump \<^verbatim>\<open>self.length\<close>, and an
  exception leaves whatever was written before it. So a call ends in one of
  two ways: \<open>Returned t n\<close>, the call returned the subtree root \<open>t\<close> and
  \<^verbatim>\<open>self.length\<close> is \<open>n\<close>; or \<open>Raised e t n\<close>, exception \<open>e\<close> propagated, the
  nodes of the argument subtree are now in state \<open>t\<close> and \<^verbatim>\<open>self.length\<close> is \<open>n\<close>.
\<close>

datatype ('k, 'i) aux_result =
  Returned "('k, 'i) anode" int
  | Raised error "('k, 'i) anode" int

subsection \<open>Accessors\<close>

fun get_tree_size :: "('k, 'i) anode \<Rightarrow> int" where
  "get_tree_size Null = 0"
| "get_tree_size (Node l k v h s r) = s"

fun get_height :: "('k, 'i) anode \<Rightarrow> int" where
  "get_height Null = 0"
| "get_height (Node l k v h s r) = h"

fun get_balance :: "('k, 'i) anode \<Rightarrow> int" where
  "get_balance Null = 0"
| "get_balance (Node l k v h s r) = get_height r - get_height l"

text \<open>
  The two assignments
  \<^verbatim>\<open>current.height = 1 + max(get_height(left), get_height(right))\<close> and
  \<^verbatim>\<open>current.tree_size = 1 + get_tree_size(left) + get_tree_size(right)\<close>,
  which \<^verbatim>\<open>insert_aux\<close>, \<^verbatim>\<open>delete_aux\<close> and both rotations perform on a node.
\<close>

fun recompute :: "('k, 'i) anode \<Rightarrow> ('k, 'i) anode" where
  "recompute Null = Null"
| "recompute (Node l k v h s r) =
     Node l k v (1 + max (get_height l) (get_height r))
       (1 + get_tree_size l + get_tree_size r) r"

subsection \<open>Rotations and rebalancing\<close>

text \<open>
  \<^verbatim>\<open>left_rotate\<close> reads \<^verbatim>\<open>child = current.right\<close> and \<^verbatim>\<open>center = child.left\<close>
  before it writes anything, so on \<^verbatim>\<open>None\<close> it raises with the nodes untouched.
  Otherwise \<^verbatim>\<open>current\<close> gets \<^verbatim>\<open>center\<close> as right child and is recomputed, then
  \<^verbatim>\<open>child\<close> gets \<^verbatim>\<open>current\<close> as left child and is recomputed.
\<close>

fun left_rotate :: "('k, 'i) anode \<Rightarrow> error + ('k, 'i) anode" where
  "left_rotate Null = Inl AttributeError"
| "left_rotate (Node l k v h s Null) = Inl AttributeError"
| "left_rotate (Node l k v h s (Node cl ck cv ch cs cr)) =
     Inr (recompute (Node (recompute (Node l k v h s cl)) ck cv ch cs cr))"

fun right_rotate :: "('k, 'i) anode \<Rightarrow> error + ('k, 'i) anode" where
  "right_rotate Null = Inl AttributeError"
| "right_rotate (Node Null k v h s r) = Inl AttributeError"
| "right_rotate (Node (Node cl ck cv ch cs cr) k v h s r) =
     Inr (recompute (Node cl ck cv ch cs (recompute (Node cr k v h s r))))"

text \<open>
  \<^verbatim>\<open>rebalance\<close>. In the right-heavy branch \<^verbatim>\<open>child = current.right\<close> and the test
  reads \<^verbatim>\<open>child.left\<close>, which raises on \<^verbatim>\<open>None\<close>; the inner rotation can
  only raise before its first write, and once \<^verbatim>\<open>current.right\<close> is assigned the
  outer rotation finds a child. So a raise of \<^verbatim>\<open>rebalance\<close> leaves the nodes
  as they were, and the result needs no state for the error case.
\<close>

fun rebalance :: "('k, 'i) anode \<Rightarrow> error + ('k, 'i) anode" where
  "rebalance current =
     (if get_balance current \<ge> 2 then
        (case current of
           Null \<Rightarrow> Inl AttributeError
         | Node l k v h s child \<Rightarrow>
             (case child of
                Null \<Rightarrow> Inl AttributeError
              | Node cl ck cv ch cs cr \<Rightarrow>
                  if get_height cl > get_height cr then
                    (case right_rotate child of
                       Inl e \<Rightarrow> Inl e
                     | Inr child' \<Rightarrow> left_rotate (Node l k v h s child'))
                  else left_rotate current))
      else if get_balance current \<le> - 2 then
        (case current of
           Null \<Rightarrow> Inl AttributeError
         | Node child k v h s r \<Rightarrow>
             (case child of
                Null \<Rightarrow> Inl AttributeError
              | Node cl ck cv ch cs cr \<Rightarrow>
                  if get_height cr > get_height cl then
                    (case left_rotate child of
                       Inl e \<Rightarrow> Inl e
                     | Inr child' \<Rightarrow> right_rotate (Node child' k v h s r))
                  else right_rotate current))
      else Inr current)"

text \<open>
  The tail shared by \<^verbatim>\<open>insert_aux\<close> and \<^verbatim>\<open>delete_aux\<close>: recompute the cached
  fields of \<^verbatim>\<open>current\<close>, rebalance, return the new subtree root. If
  \<^verbatim>\<open>rebalance\<close> raises, the recomputed fields have already been written.
\<close>

definition update_and_rebalance :: "('k, 'i) anode \<Rightarrow> int \<Rightarrow> ('k, 'i) aux_result" where
  "update_and_rebalance current n =
     (case rebalance (recompute current) of
        Inl e \<Rightarrow> Raised e (recompute current) n
      | Inr t \<Rightarrow> Returned t n)"

subsection \<open>Insertion\<close>

text \<open>
  \<^verbatim>\<open>insert_aux(current, key, item)\<close> with \<^verbatim>\<open>self.length\<close> threaded as \<open>n\<close>.
  A fresh \<^verbatim>\<open>AVLTreeNode(key, item)\<close> has no children; its cached fields are
  overwritten at once by the shared tail, so the constructor's initial values
  (1 and 1) do not matter. A recursive call that raises skips the assignment
  to \<^verbatim>\<open>current.left\<close> (or \<^verbatim>\<open>current.right\<close>), but the child object keeps what
  the call wrote into it.
\<close>

fun insert_aux :: "('k::linorder, 'i) anode \<Rightarrow> 'k \<Rightarrow> 'i \<Rightarrow> int \<Rightarrow> ('k, 'i) aux_result" where
  "insert_aux Null key item n = update_and_rebalance (Node Null key item 1 1 Null) (n + 1)"
| "insert_aux (Node l k v h s r) key item n =
     (if key < k then
        (case insert_aux l key item n of
           Raised e l' n' \<Rightarrow> Raised e (Node l' k v h s r) n'
         | Returned l' n' \<Rightarrow> update_and_rebalance (Node l' k v h s r) n')
      else if key > k then
        (case insert_aux r key item n of
           Raised e r' n' \<Rightarrow> Raised e (Node l k v h s r') n'
         | Returned r' n' \<Rightarrow> update_and_rebalance (Node l k v h s r') n')
      else Raised KeyError (Node l k v h s r) n)"

subsection \<open>Deletion\<close>

text \<open>
  Modelled from the spec: \<^verbatim>\<open>is_leaf\<close>, \<^verbatim>\<open>get_minimal\<close> and \<^verbatim>\<open>get_successor\<close>
  belong to the base class in \<^verbatim>\<open>bst.py\<close>, which is not among the sources. The
  spec's delete cases are "no children" and "find the in-order successor
  (leftmost node of the right subtree)". The successor is returned as its
  (key, item) pair, the only fields \<^verbatim>\<open>delete_aux\<close> reads from it; \<open>None\<close>
  stands for Python's \<^verbatim>\<open>None\<close>.
\<close>

fun is_leaf :: "('k, 'i) anode \<Rightarrow> bool" where
  "is_leaf (Node Null k v h s Null) = True"
| "is_leaf t = False"

fun get_minimal :: "('k, 'i) anode \<Rightarrow> ('k \<times> 'i) option" where
  "get_minimal Null = None"
| "get_minimal (Node Null k v h s r) = Some (k, v)"
| "get_minimal (Node (Node ll lk lv lh ls lr) k v h s r) = get_minimal (Node ll lk lv lh ls lr)"

fun get_successor :: "('k, 'i) anode \<Rightarrow> ('k \<times> 'i) option" where
  "get_successor Null = None"
| "get_successor (Node l k v h s r) = get_minimal r"

fun is_none :: "('k, 'i) anode \<Rightarrow> bool" where
  "is_none Null = True"
| "is_none (Node l k v h s r) = False"

text \<open>
  \<^verbatim>\<open>delete_aux(current, key)\<close>. In the two-children case the node's key and
  item are overwritten with the successor's before the recursive call, so a
  raise from that call leaves them overwritten.
\<close>

fun delete_aux :: "('k::linorder, 'i) anode \<Rightarrow> 'k \<Rightarrow> int \<Rightarrow> ('k, 'i) aux_result" where
  "delete_aux Null key n = Raised ValueError Null n"
| "delete_aux (Node l k v h s r) key n =
     (if key < k then
        (case delete_aux l key n of
           Raised e l' n' \<Rightarrow> Raised e (Node l' k v h s r) n'
         | Returned l' n' \<Rightarrow> update_and_rebalance (Node l' k v h s r) n')
      else if key > k then
        (case delete_aux r key n of
           Raised e r' n' \<Rightarrow> Raised e (Node l k v h s r') n'
         | Returned r' n' \<Rightarrow> update_and_rebalance (Node l k v h s r') n')
      else if is_leaf (Node l k v h s r) then Returned Null (n - 1)
      else if is_none l then Returned r (n - 1)
      else if is_none r then Returned l (n - 1)
      else
        (case get_successor (Node l k v h s r) of
           None \<Rightarrow> Raised AttributeError (Node l k v h s r) n
         | Some (sk, si) \<Rightarrow>
             (case delete_aux r sk n of
                Raised e r' n' \<Rightarrow> Raised e (Node l sk si h s r') n'
              | Returned r' n' \<Rightarrow> update_and_rebalance (Node l sk si h s r') n')))"

subsection \<open>The tree object and its public methods\<close>

record ('k, 'i) AVLTree =
  root :: "('k, 'i) anode"
  length' :: int

text \<open>
  Modelled from the spec: the constructor and the public \<^verbatim>\<open>insert\<close> and
  \<^verbatim>\<open>delete\<close> are inherited from \<^verbatim>\<open>bst.py\<close>, which is not among the sources.
  The spec has an empty tree with no root and count 0, and each public
  mutation recursing from the root and reattaching the returned subtree root.
  A method's result is its outcome paired with the tree afterwards; when the
  helper raises, \<^verbatim>\<open>self.root\<close> is not reassigned and still names the old root
  object.
\<close>

definition empty_tree :: "('k, 'i) AVLTree" where
  "empty_tree = \<lparr>root = Null, length' = 0\<rparr>"

definition insert_item :: "('k::linorder, 'i) AVLTree \<Rightarrow> 'k \<Rightarrow> 'i \<Rightarrow> (error + unit) \<times> ('k, 'i) AVLTree" where
  "insert_item T key item =
     (case insert_aux (root T) key item (length' T) of
        Returned t n \<Rightarrow> (Inr (), \<lparr>root = t, length' = n\<rparr>)
      | Raised e t n \<Rightarrow> (Inl e, \<lparr>root = t, length' = n\<rparr>))"

definition delete_item :: "('k::linorder, 'i) AVLTree \<Rightarrow> 'k \<Rightarrow> (error + unit) \<times> ('k, 'i) AVLTree" where
  "delete_item T key =
     (case delete_aux (root T) key (length' T) of
        Returned t n \<Rightarrow> (Inr (), \<lparr>root = t, length' = n\<rparr>)
      | Raised e t n \<Rightarrow> (Inl e, \<lparr>root = t, length' = n\<rparr>))"

subsection \<open>Rank range query and maximum\<close>

text \<open>
  \<^verbatim>\<open>range_between_aux(current, i, j, max_index, l)\<close>: the three \<^verbatim>\<open>if\<close>
  statements run in sequence, each extending the list \<^verbatim>\<open>l\<close>. Nothing is
  written to a node.
\<close>

fun range_between_aux :: "('k, 'i) anode \<Rightarrow> int \<Rightarrow> int \<Rightarrow> int \<Rightarrow> 'i list \<Rightarrow> 'i list" where
  "range_between_aux Null i j max_index l = l"
| "range_between_aux (Node lt k v h s rt) i j max_index l =
     (let current_index = (if is_none rt then max_index else max_index - get_tree_size rt);
          l1 = (if current_index > i then range_between_aux lt i j (current_index - 1) l else l);
          l2 = (if i \<le> current_index \<and> current_index \<le> j then l1 @ [v] else l1)
      in if current_index < j then range_between_aux rt i j max_index l2 else l2)"

definition range_between :: "('k, 'i) AVLTree \<Rightarrow> int \<Rightarrow> int \<Rightarrow> (error + 'i list) \<times> ('k, 'i) AVLTree" where
  "range_between T i j = (Inr (range_between_aux (root T) i j (length' T - 1) []), T)"

text \<open>
  \<^verbatim>\<open>get_max\<close>: the loop \<^verbatim>\<open>while current.right is not None\<close> starts at the
  root; on an empty tree \<^verbatim>\<open>current\<close> is \<^verbatim>\<open>None\<close> and the loop test raises.
\<close>

fun get_max_loop :: "('k, 'i) anode \<Rightarrow> error + ('k \<times> 'i)" where
  "get_max_loop Null = Inl AttributeError"
| "get_max_loop (Node l k v h s Null) = Inr (k, v)"
| "get_max_loop (Node l k v h s (Node rl rk rv rh rs rr)) = get_max_loop (Node rl rk rv rh rs rr)"

definition get_max :: "('k, 'i) AVLTree \<Rightarrow> (error + ('k \<times> 'i)) \<times> ('k, 'i) AVLTree" where
  "get_max T = (get_max_loop (root T), T)"

subsection \<open>Observations and invariants\<close>

text \<open>The in-order traversal of a subtree, as (key, item) pairs.\<close>

fun entries :: "('k, 'i) anode \<Rightarrow> ('k \<times> 'i) list" where
  "entries Null = []"
| "entries (Node l k v h s r) = entries l @ (k, v) # entries r"

definition keys :: "('k, 'i) anode \<Rightarrow> 'k list" where
  "keys t = map fst (entries t)"

definition items :: "('k, 'i) anode \<Rightarrow> 'i list" where
  "items t = map snd (entries t)"

text \<open>Invariant 2: at every node the children's heights differ by at most one.\<close>

fun balanced :: "('k, 'i) anode \<Rightarrow> bool" where
  "balanced Null = True"
| "balanced (Node l k v h s r) =
     (\<bar>get_height l - get_height r\<bar> \<le> 1 \<and> balanced l \<and> balanced r)"

text \<open>
  The height of a subtree as the number of nodes on its longest downward
  path, and invariant 2 read with these heights instead of the cached ones.
\<close>

fun tree_height :: "('k, 'i) anode \<Rightarrow> int" where
  "tree_height Null = 0"
| "tree_height (Node l k v h s r) = 1 + max (tree_height l) (tree_height r)"

fun height_balanced :: "('k, 'i) anode \<Rightarrow> bool" where
  "height_balanced Null = True"
| "height_balanced (Node l k v h s r) =
     (\<bar>tree_height l - tree_height r\<bar> \<le> 1 \<and> height_balanced l \<and> height_balanced r)"

text \<open>
  Invariant 3: at every node the cached height is one more than the larger
  child height and the cached size one more than the two child sizes, an
  absent child counting 0.
\<close>

fun fields_ok :: "('k, 'i) anode \<Rightarrow> bool" where
  "fields_ok Null = True"
| "fields_ok (Node l k v h s r) =
     (h = 1 + max (get_height l) (get_height r) \<and>
      s = 1 + get_tree_size l + get_tree_size r \<and> fields_ok l \<and> fields_ok r)"

text \<open>Invariant 1: the in-order traversal has strictly ascending keys.\<close>

definition ascending :: "('k::linorder, 'i) anode \<Rightarrow> bool" where
  "ascending t = sorted_wrt (<) (keys t)"

text \<open>
  Invariant 4: the count is the number of nodes, and is the root's cached
  size when there is a root.
\<close>

definition count_ok :: "('k, 'i) AVLTree \<Rightarrow> bool" where
  "count_ok T =
     (length' T = int (length (entries (root T))) \<and>
      (\<not> is_none (root T) \<longrightarrow> length' T = get_tree_size (root T)))"

definition tree_invariants :: "('k::linorder, 'i) AVLTree \<Rightarrow> bool" where
  "tree_invariants T =
     (balanced (root T) \<and> fields_ok (root T) \<and> ascending (root T) \<and> count_ok T)"

text \<open>
  Modelled from the spec: \<^verbatim>\<open>lookup(key) -> value\<close> (fails if absent) is
  inherited from \<^verbatim>\<open>bst.py\<close>, which is not among the sources. It is the
  descent by key comparison that insert and delete use; \<open>None\<close> is the
  failure on an absent key.
\<close>

fun lookup_aux :: "('k::linorder, 'i) anode \<Rightarrow> 'k \<Rightarrow> 'i option" where
  "lookup_aux Null key = None"
| "lookup_aux (Node l k v h s r) key =
     (if key < k then lookup_aux l key
      else if key > k then lookup_aux r key
      else Some v)"

definition lookup :: "('k::linorder, 'i) AVLTree \<Rightarrow> 'k \<Rightarrow> 'i option" where
  "lookup T key = lookup_aux (root T) key"

text \<open>
  The parent-child structure of a subtree: the nodes with their keys and
  items, the cached fields blanked.
\<close>

fun skeleton :: "('k, 'i) anode \<Rightarrow> ('k, 'i) anode" where
  "skeleton Null = Null"
| "skeleton (Node l k v h s r) = Node (skeleton l) k v 0 0 (skeleton r)"

text \<open>
  A sequence of public mutations, run from a given tree; it stops with
  \<open>None\<close> at the first operation that raises.
\<close>

datatype ('k, 'i) operation = Insert 'k 'i | Delete 'k

fun apply_operation :: "('k::linorder, 'i) operation \<Rightarrow> ('k, 'i) AVLTree \<Rightarrow> (error + unit) \<times> ('k, 'i) AVLTree" where
  "apply_operation (Insert key item) T = insert_item T key item"
| "apply_operation (Delete key) T = delete_item T key"

fun run_operations :: "('k::linorder, 'i) operation list \<Rightarrow> ('k, 'i) AVLTree \<Rightarrow> ('k, 'i) AVLTree option" where
  "run_operations [] T = Some T"
| "run_operations (x # xs) T =
     (case apply_operation x T of
        (Inr u, T') \<Rightarrow> run_operations xs T'
      | (Inl e, T') \<Rightarrow> None)"

text \<open>
  The values at the 0-based ranks \<open>i..j\<close> of a list whose first element has
  rank \<open>b\<close>.
\<close>

fun window :: "int \<Rightarrow> int \<Rightarrow> int \<Rightarrow> 'a list \<Rightarrow> 'a list" where
  "window i j b [] = []"
| "window i j b (x # xs) = (if i \<le> b \<and> b \<le> j then [x] else []) @ window i j (b + 1) xs"

section \<open>The linear probing hash table of hash_table.py\<close>

subsection \<open>Prime table sizes (primes.py)\<close>

text \<open>
  \<^verbatim>\<open>is_prime\<close> first strips the factors 2 from \<open>n - 1\<close> with
  \<^verbatim>\<open>while d % 2 == 0: d //= 2; s += 1\<close>. As a loop on its own this does not end
  for \<open>d = 0\<close>, so its result is optional.
\<close>

partial_function (option) split_even :: "int \<Rightarrow> int \<Rightarrow> (int \<times> int) option" where
  "split_even d s = (if d mod 2 = 0 then split_even (d div 2) (s + 1) else Some (d, s))"

declare split_even.simps [code]

text \<open>
  The inner loop \<^verbatim>\<open>for r in range(1, s)\<close>, run for the number of iterations
  left: square \<open>x\<close> modulo \<open>n\<close> and stop with \<^verbatim>\<open>good = True\<close> at \<open>n - 1\<close>.
\<close>

fun squaring_loop :: "nat \<Rightarrow> int \<Rightarrow> int \<Rightarrow> bool" where
  "squaring_loop 0 x n = False"
| "squaring_loop (Suc r) x n =
     (if (x * x) mod n = n - 1 then True else squaring_loop r ((x * x) mod n) n)"

text \<open>
  The loop \<^verbatim>\<open>for v in vals\<close>: \<^verbatim>\<open>break\<close> (and so return \<^verbatim>\<open>True\<close>) at the first
  base \<open>v \<ge> n\<close>; \<^verbatim>\<open>pow(v, d, n)\<close> is \<open>v ^ d mod n\<close>.
\<close>

fun check_vals :: "int list \<Rightarrow> int \<Rightarrow> int \<Rightarrow> int \<Rightarrow> bool" where
  "check_vals [] n d s = True"
| "check_vals (v # vals) n d s =
     (if v \<ge> n then True
      else if (v ^ nat d) mod n = 1 \<or> (v ^ nat d) mod n = n - 1 then check_vals vals n d s
      else if squaring_loop (nat (s - 1)) ((v ^ nat d) mod n) n then check_vals vals n d s
      else False)"

definition is_prime :: "int \<Rightarrow> bool option" where
  "is_prime n =
     (if n < 2 then Some False
      else case split_even (n - 1) 0 of
             None \<Rightarrow> None
           | Some (d, s) \<Rightarrow> Some (check_vals [2, 7, 61] n d s))"

text \<open>
  \<^verbatim>\<open>LargestPrimeIterator.__next__\<close>: \<^verbatim>\<open>for num in range(upper_bound - 1, 0, -1)\<close>
  returns the first prime found; falling out of the loop returns Python's
  \<^verbatim>\<open>None\<close> (the inner \<open>None\<close>). The table makes a fresh iterator for every
  call, so the iterator's updated bound is never read again.
\<close>

fun prime_search :: "nat \<Rightarrow> int option option" where
  "prime_search 0 = Some None"
| "prime_search (Suc m) =
     (case is_prime (int (Suc m)) of
        None \<Rightarrow> None
      | Some True \<Rightarrow> Some (Some (int (Suc m)))
      | Some False \<Rightarrow> prime_search m)"

definition next_largest_prime :: "int \<Rightarrow> int option option" where
  "next_largest_prime upper_bound = prime_search (nat (upper_bound - 1))"

subsection \<open>The table object\<close>

text \<open>
  The fields of \<^verbatim>\<open>LinearProbeTable\<close>. The array \<^verbatim>\<open>ArrayR\<close> (a fixed-length
  array from a module that is not among the sources) is the list of its
  slots; a slot is \<^verbatim>\<open>None\<close> or a (key, data) tuple. Keys are strings of
  8-bit characters, \<^verbatim>\<open>ord\<close> being \<open>of_char\<close>.
\<close>

record 'v LinearProbeTable =
  expected_size :: int
  tablesize :: int
  table :: "(string \<times> 'v) option list"
  count :: int
  conflict_count :: int
  probe_total :: int
  probe_max :: int
  rehash_count :: int

text \<open>
  The common tail of \<^verbatim>\<open>__init__\<close>, once the table size is chosen: an array of
  that many empty slots, no elements, all statistics 0.
\<close>

definition new_table :: "int \<Rightarrow> int \<Rightarrow> 'v LinearProbeTable" where
  "new_table es n =
     \<lparr>expected_size = es, tablesize = n, table = replicate (nat n) None, count = 0,
      conflict_count = 0, probe_total = 0, probe_max = 0, rehash_count = 0\<rparr>"

text \<open>
  \<^verbatim>\<open>hash\<close>: for each character \<^verbatim>\<open>value = (ord(char) + a*value) % len(table)\<close>,
  then \<^verbatim>\<open>a = a * b % (len(table) - 1)\<close>, with \<open>a = 31415\<close> and \<open>b = 27183\<close> at
  the start. Either modulus may be 0, which raises. Both moduli are positive
  otherwise, where Python's \<^verbatim>\<open>%\<close> is \<open>mod\<close>.
\<close>

fun hash_loop :: "int \<Rightarrow> string \<Rightarrow> int \<Rightarrow> int \<Rightarrow> error + int" where
  "hash_loop n [] val a = Inr val"
| "hash_loop n (c # cs) val a =
     (if n = 0 then Inl ZeroDivisionError
      else if n - 1 = 0 then Inl ZeroDivisionError
      else hash_loop n cs ((of_char c + a * val) mod n) (a * 27183 mod (n - 1)))"

definition hash :: "'v LinearProbeTable \<Rightarrow> string \<Rightarrow> error + int" where
  "hash st key = hash_loop (int (length (table st))) key 0 31415"

definition is_full :: "'v LinearProbeTable \<Rightarrow> bool" where
  "is_full st = (count st = int (length (table st)))"

text \<open>
  The loop of \<^verbatim>\<open>_linear_probe\<close>, \<^verbatim>\<open>for _ in range(len(self.table))\<close>, with the
  number of iterations left; running out raises \<^verbatim>\<open>KeyError\<close>. It writes the
  statistics \<^verbatim>\<open>probe_total\<close> and \<^verbatim>\<open>probe_max\<close>, so the table is returned
  with the outcome. An index outside the array raises.
\<close>

fun probe_loop :: "nat \<Rightarrow> string \<Rightarrow> bool \<Rightarrow> int \<Rightarrow> int \<Rightarrow> 'v LinearProbeTable
    \<Rightarrow> (error + int) \<times> 'v LinearProbeTable" where
  "probe_loop 0 key is_insert position cur_probe_chain st = (Inl KeyError, st)"
| "probe_loop (Suc n) key is_insert position cur_probe_chain st =
     (if position < 0 \<or> int (length (table st)) \<le> position then (Inl IndexError, st)
      else
        (case table st ! nat position of
           None \<Rightarrow>
             if is_insert then
               (Inr position,
                if cur_probe_chain > probe_max st then st\<lparr>probe_max := cur_probe_chain\<rparr> else st)
             else (Inl KeyError, st)
         | Some (k, d) \<Rightarrow>
             if k = key then
               (Inr position,
                if cur_probe_chain > probe_max st then st\<lparr>probe_max := cur_probe_chain\<rparr> else st)
             else
               probe_loop n key is_insert ((position + 1) mod int (length (table st)))
                 (cur_probe_chain + 1) (st\<lparr>probe_total := probe_total st + 1\<rparr>)))"

definition linear_probe :: "'v LinearProbeTable \<Rightarrow> string \<Rightarrow> bool \<Rightarrow> (error + int) \<times> 'v LinearProbeTable" where
  "linear_probe st key is_insert =
     (case hash st key of
        Inl e \<Rightarrow> (Inl e, st)
      | Inr position \<Rightarrow>
          if is_insert \<and> is_full st then (Inl KeyError, st)
          else probe_loop (length (table st)) key is_insert position 0 st)"

text \<open>
  \<^verbatim>\<open>__getitem__\<close> probes without inserting and reads the data of the slot
  found; \<^verbatim>\<open>__contains__\<close> turns its \<^verbatim>\<open>KeyError\<close> into \<^verbatim>\<open>False\<close>.
\<close>

definition getitem :: "'v LinearProbeTable \<Rightarrow> string \<Rightarrow> (error + 'v) \<times> 'v LinearProbeTable" where
  "getitem st key =
     (case linear_probe st key False of
        (Inl e, st1) \<Rightarrow> (Inl e, st1)
      | (Inr position, st1) \<Rightarrow>
          (case table st1 ! nat position of
             None \<Rightarrow> (Inl TypeError, st1)
           | Some (k, d) \<Rightarrow> (Inr d, st1)))"

definition contains :: "'v LinearProbeTable \<Rightarrow> string \<Rightarrow> (error + bool) \<times> 'v LinearProbeTable" where
  "contains st key =
     (case getitem st key of
        (Inl e, st1) \<Rightarrow> (if e = KeyError then (Inr False, st1) else (Inl e, st1))
      | (Inr d, st1) \<Rightarrow> (Inr True, st1))"

text \<open>
  The steps of \<^verbatim>\<open>__setitem__\<close> after its rehash test: probe for insertion,
  add 1 to \<^verbatim>\<open>count\<close> if the slot found is empty, store the pair there.
\<close>

definition probe_and_store :: "'v LinearProbeTable \<Rightarrow> string \<Rightarrow> 'v \<Rightarrow> (error + unit) \<times> 'v LinearProbeTable" where
  "probe_and_store st key data =
     (case linear_probe st key True of
        (Inl e, st1) \<Rightarrow> (Inl e, st1)
      | (Inr position, st1) \<Rightarrow>
          (Inr (),
           st1\<lparr>count := (if table st1 ! nat position = None then count st1 + 1 else count st1),
                table := (table st1)[nat position := Some (key, data)]\<rparr>))"

text \<open>
  \<^verbatim>\<open>__setitem__\<close> and \<^verbatim>\<open>_rehash\<close> call each other: \<^verbatim>\<open>__setitem__\<close> rehashes
  first when \<^verbatim>\<open>count > tablesize / 2\<close> (for integers, \<open>2 * count > tablesize\<close>),
  and \<^verbatim>\<open>_rehash\<close> re-inserts every pair of the old array, in slot order, with
  \<^verbatim>\<open>self[key] = data\<close>. The recursion is bounded by fuel, spent at each call
  of \<^verbatim>\<open>_rehash\<close>; \<open>None\<close> is running out of fuel (or a prime test that does
  not end). The new size is the largest prime below
  \<^verbatim>\<open>int(self.tablesize * 2.2)\<close>, which for a table size below \<open>2 ^ 40\<close> is
  \<open>11 * tablesize div 5\<close>; without such a prime the array length is \<^verbatim>\<open>None\<close>,
  which raises.
\<close>

fun setitem :: "nat \<Rightarrow> 'v LinearProbeTable \<Rightarrow> string \<Rightarrow> 'v \<Rightarrow> ((error + unit) \<times> 'v LinearProbeTable) option"
  and rehash :: "nat \<Rightarrow> 'v LinearProbeTable \<Rightarrow> ((error + unit) \<times> 'v LinearProbeTable) option"
  and rehash_loop :: "nat \<Rightarrow> (string \<times> 'v) option list \<Rightarrow> 'v LinearProbeTable
      \<Rightarrow> ((error + unit) \<times> 'v LinearProbeTable) option" where
  "setitem fuel st key data =
     (if 2 * count st > tablesize st then
        (case fuel of
           0 \<Rightarrow> None
         | Suc f \<Rightarrow>
             (case rehash f st of
                None \<Rightarrow> None
              | Some (Inl e, st1) \<Rightarrow> Some (Inl e, st1)
              | Some (Inr u, st1) \<Rightarrow> Some (probe_and_store st1 key data)))
      else Some (probe_and_store st key data))"
| "rehash f st =
     (case next_largest_prime ((11 * tablesize st) div 5) of
        None \<Rightarrow> None
      | Some None \<Rightarrow> Some (Inl TypeError, st)
      | Some (Some new_size) \<Rightarrow>
          (case rehash_loop f (table st)
                  (st\<lparr>table := replicate (nat new_size) None, count := 0, tablesize := new_size\<rparr>) of
             None \<Rightarrow> None
           | Some (Inl e, st1) \<Rightarrow> Some (Inl e, st1)
           | Some (Inr u, st1) \<Rightarrow> Some (Inr (), st1\<lparr>rehash_count := rehash_count st1 + 1\<rparr>)))"
| "rehash_loop f [] st = Some (Inr (), st)"
| "rehash_loop f (None # old) st = rehash_loop f old st"
| "rehash_loop f (Some (key, data) # old) st =
     (case setitem f st key data of
        None \<Rightarrow> None
      | Some (Inl e, st1) \<Rightarrow> Some (Inl e, st1)
      | Some (Inr u, st1) \<Rightarrow> rehash_loop f old st1)"

section \<open>Properties of the AVL tree\<close>

subsection \<open>Rebalancing restores the invariants\<close>

declare rebalance.simps [simp del]

lemma get_height_nonneg: "fields_ok t \<Longrightarrow> 0 \<le> get_height t"
  by (induction t) auto

lemma rebalance_right_heavy:
  assumes "fields_ok l" "fields_ok r" "balanced l" "balanced r"
    and "get_height r - get_height l = 2"
  shows "\<exists>t. rebalance (recompute (Node l k v h s r)) = Inr t \<and> fields_ok t \<and> balanced t
           \<and> entries t = entries l @ (k, v) # entries r
           \<and> (get_height t = get_height r \<or> get_height t = get_height r + 1)"
proof -
  from assms(1) have l0: "0 \<le> get_height l" by (rule get_height_nonneg)
  with assms(5) have "get_height r \<ge> 2" by simp
  then obtain rl rk rv rh rs rr where r: "r = Node rl rk rv rh rs rr"
    by (cases r) auto
  show ?thesis
  proof (cases "get_height rl > get_height rr")
    case True
    from assms(2) r have "0 \<le> get_height rr" by (simp add: get_height_nonneg)
    with True have "get_height rl \<ge> 1" by simp
    then obtain a ak av ah as b where rl: "rl = Node a ak av ah as b"
      by (cases rl) auto
    show ?thesis using assms True l0 unfolding r rl
      by (auto simp: max_def rebalance.simps)
  next
    case False
    show ?thesis using assms False l0 unfolding r
      by (auto simp: max_def rebalance.simps)
  qed
qed

lemma rebalance_left_heavy:
  assumes "fields_ok l" "fields_ok r" "balanced l" "balanced r"
    and "get_height l - get_height r = 2"
  shows "\<exists>t. rebalance (recompute (Node l k v h s r)) = Inr t \<and> fields_ok t \<and> balanced t
           \<and> entries t = entries l @ (k, v) # entries r
           \<and> (get_height t = get_height l \<or> get_height t = get_height l + 1)"
proof -
  from assms(2) have r0: "0 \<le> get_height r" by (rule get_height_nonneg)
  with assms(5) have "get_height l \<ge> 2" by simp
  then obtain ll lk lv lh ls lr where l: "l = Node ll lk lv lh ls lr"
    by (cases l) auto
  show ?thesis
  proof (cases "get_height lr > get_height ll")
    case True
    from assms(1) l have "0 \<le> get_height ll" by (simp add: get_height_nonneg)
    with True have "get_height lr \<ge> 1" by simp
    then obtain a ak av ah as b where lr: "lr = Node a ak av ah as b"
      by (cases lr) auto
    show ?thesis using assms True r0 unfolding l lr
      by (auto simp: max_def rebalance.simps)
  next
    case False
    show ?thesis using assms False r0 unfolding l
      by (auto simp: max_def rebalance.simps)
  qed
qed

lemma rebalance_even:
  "\<bar>get_height l - get_height r\<bar> \<le> 1 \<Longrightarrow>
   rebalance (recompute (Node l k v h s r)) = Inr (recompute (Node l k v h s r))"
proof -
  assume "\<bar>get_height l - get_height r\<bar> \<le> 1"
  then have "\<not> get_height r - get_height l \<ge> 2" "\<not> get_height r - get_height l \<le> - 2"
    by linarith+
  then show ?thesis by (simp add: rebalance.simps)
qed

lemma update_and_rebalance_ok:
  assumes "fields_ok l" "fields_ok r" "balanced l" "balanced r"
    and "\<bar>get_height l - get_height r\<bar> \<le> 2"
  shows "\<exists>t. update_and_rebalance (Node l k v h s r) n = Returned t n \<and> fields_ok t \<and> balanced t
           \<and> entries t = entries l @ (k, v) # entries r
           \<and> max (get_height l) (get_height r) \<le> get_height t
           \<and> get_height t \<le> 1 + max (get_height l) (get_height r)
           \<and> (\<bar>get_height l - get_height r\<bar> \<le> 1 \<longrightarrow>
                get_height t = 1 + max (get_height l) (get_height r))"
proof -
  consider (even) "\<bar>get_height l - get_height r\<bar> \<le> 1"
    | (right) "get_height r - get_height l = 2"
    | (left) "get_height l - get_height r = 2"
    using assms(5) by linarith
  then show ?thesis
  proof cases
    case even
    have "rebalance (recompute (Node l k v h s r)) = Inr (recompute (Node l k v h s r))"
      using even by (rule rebalance_even)
    then show ?thesis using assms even
      by (auto simp: update_and_rebalance_def max_def)
  next
    case right
    from rebalance_right_heavy[OF assms(1-4) right, of k v h s]
    obtain t where "rebalance (recompute (Node l k v h s r)) = Inr t" "fields_ok t" "balanced t"
      "entries t = entries l @ (k, v) # entries r"
      "get_height t = get_height r \<or> get_height t = get_height r + 1"
      by blast
    then show ?thesis using right
      by (auto simp: update_and_rebalance_def)
  next
    case left
    from rebalance_left_heavy[OF assms(1-4) left, of k v h s]
    obtain t where "rebalance (recompute (Node l k v h s r)) = Inr t" "fields_ok t" "balanced t"
      "entries t = entries l @ (k, v) # entries r"
      "get_height t = get_height l \<or> get_height t = get_height l + 1"
      by blast
    then show ?thesis using left
      by (auto simp: update_and_rebalance_def)
  qed
qed

lemma ascending_Node:
  "ascending (Node l k v h s r) \<longleftrightarrow>
     ascending l \<and> ascending r \<and> (\<forall>x\<in>set (keys l). x < k) \<and> (\<forall>y\<in>set (keys r). k < y)"
  by (fastforce simp: ascending_def keys_def sorted_wrt_append)

lemma keys_Node: "set (keys (Node l k v h s r)) = set (keys l) \<union> {k} \<union> set (keys r)"
  by (auto simp: keys_def)

lemma ascending_Null: "ascending Null"
  by (simp add: ascending_def keys_def)

lemma keys_Null: "keys Null = []"
  by (simp add: keys_def)

lemma keys_entries: "set (keys t) = fst ` set (entries t)"
  by (simp add: keys_def)

lemma insert_aux_ok:
  "fields_ok t \<Longrightarrow> balanced t \<Longrightarrow> ascending t \<Longrightarrow> key \<notin> set (keys t) \<Longrightarrow>
   \<exists>t'. insert_aux t key item n = Returned t' (n + 1) \<and> fields_ok t' \<and> balanced t'
        \<and> ascending t' \<and> set (entries t') = insert (key, item) (set (entries t))
        \<and> get_height t \<le> get_height t' \<and> get_height t' \<le> get_height t + 1"
proof (induction t)
  case Null
  show ?case
    by (simp add: update_and_rebalance_def rebalance.simps ascending_def keys_def)
next
  case (Node l k v h s r)
  from Node.prems have fl: "fields_ok l" and fr: "fields_ok r" and bl: "balanced l" and br: "balanced r"
    and al: "ascending l" and ar: "ascending r"
    and lk: "\<forall>x\<in>set (keys l). x < k" and rk: "\<forall>y\<in>set (keys r). k < y"
    and h: "h = 1 + max (get_height l) (get_height r)"
    and bal: "\<bar>get_height l - get_height r\<bar> \<le> 1"
    and nl: "key \<notin> set (keys l)" and nr: "key \<notin> set (keys r)" and nk: "key \<noteq> k"
    by (auto simp: ascending_Node keys_Node)
  show ?case
  proof (cases "key < k")
    case True
    from Node.IH(1)[OF fl bl al nl] obtain l' where
      l': "insert_aux l key item n = Returned l' (n + 1)" "fields_ok l'" "balanced l'"
        "ascending l'" "set (entries l') = insert (key, item) (set (entries l))"
        "get_height l \<le> get_height l'" "get_height l' \<le> get_height l + 1"
      by blast
    have "\<bar>get_height l' - get_height r\<bar> \<le> 2" using l'(6,7) bal by linarith
    from update_and_rebalance_ok[OF l'(2) fr l'(3) br this, of k v h s "n + 1"]
    obtain t' where t': "update_and_rebalance (Node l' k v h s r) (n + 1) = Returned t' (n + 1)"
      "fields_ok t'" "balanced t'" "entries t' = entries l' @ (k, v) # entries r"
      "max (get_height l') (get_height r) \<le> get_height t'"
      "get_height t' \<le> 1 + max (get_height l') (get_height r)"
      "\<bar>get_height l' - get_height r\<bar> \<le> 1 \<longrightarrow> get_height t' = 1 + max (get_height l') (get_height r)"
      by blast
    have asc: "ascending t'"
      using t'(4) l'(4,5) ar lk rk True
      by (fastforce simp: ascending_def keys_def sorted_wrt_append)
    have hts: "get_height (Node l k v h s r) \<le> get_height t' \<and> get_height t' \<le> get_height (Node l k v h s r) + 1"
      using t'(5,6,7) l'(6,7) bal h by (auto simp: max_def split: if_splits)
    show ?thesis using True l'(1,5) t'(1,2,3,4) asc hts by auto
  next
    case False
    with nk have gt: "k < key" by simp
    from Node.IH(2)[OF fr br ar nr] obtain r' where
      r': "insert_aux r key item n = Returned r' (n + 1)" "fields_ok r'" "balanced r'"
        "ascending r'" "set (entries r') = insert (key, item) (set (entries r))"
        "get_height r \<le> get_height r'" "get_height r' \<le> get_height r + 1"
      by blast
    have "\<bar>get_height l - get_height r'\<bar> \<le> 2" using r'(6,7) bal by linarith
    from update_and_rebalance_ok[OF fl r'(2) bl r'(3) this, of k v h s "n + 1"]
    obtain t' where t': "update_and_rebalance (Node l k v h s r') (n + 1) = Returned t' (n + 1)"
      "fields_ok t'" "balanced t'" "entries t' = entries l @ (k, v) # entries r'"
      "max (get_height l) (get_height r') \<le> get_height t'"
      "get_height t' \<le> 1 + max (get_height l) (get_height r')"
      "\<bar>get_height l - get_height r'\<bar> \<le> 1 \<longrightarrow> get_height t' = 1 + max (get_height l) (get_height r')"
      by blast
    have asc: "ascending t'"
      using t'(4) r'(4,5) al lk rk gt
      by (fastforce simp: ascending_def keys_def sorted_wrt_append)
    have hts: "get_height (Node l k v h s r) \<le> get_height t' \<and> get_height t' \<le> get_height (Node l k v h s r) + 1"
      using t'(5,6,7) r'(6,7) bal h by (auto simp: max_def split: if_splits)
    show ?thesis using False gt r'(1,5) t'(1,2,3,4) asc hts by auto
  qed
qed

lemma insert_aux_dup:
  "ascending t \<Longrightarrow> key \<in> set (keys t) \<Longrightarrow> insert_aux t key item n = Raised KeyError t n"
proof (induction t)
  case Null
  then show ?case by (simp add: keys_def)
next
  case (Node l k v h s r)
  then show ?case
    by (fastforce simp: ascending_Node keys_Node)
qed

subsection \<open>Deletion and failure lemmas\<close>

lemma get_minimal_hd:
  "\<not> is_none t \<Longrightarrow> get_minimal t = Some (hd (entries t))"
  by (induction t rule: get_minimal.induct) (auto simp: hd_append)

lemma filter_keys_id:
  "k \<notin> fst ` set xs \<Longrightarrow> filter (\<lambda>p. fst p \<noteq> k) xs = xs"
  by (induction xs) auto

lemma filter_sorted_hd:
  "sorted_wrt (<) (map fst (x # xs)) \<Longrightarrow> filter (\<lambda>p. fst p \<noteq> fst x) (x # xs) = xs"
  for x :: "'k::linorder \<times> 'i"
proof -
  assume a: "sorted_wrt (<) (map fst (x # xs))"
  then have "fst x \<notin> fst ` set xs" by fastforce
  then show ?thesis by (simp add: filter_keys_id)
qed

lemma is_none_entries: "is_none t \<longleftrightarrow> entries t = []"
  by (cases t) auto

lemma is_none_Null: "is_none t \<longleftrightarrow> t = Null"
  by (cases t) auto

lemma is_leaf_iff: "is_leaf (Node l k v h s r) \<longleftrightarrow> l = Null \<and> r = Null"
  by (cases l; cases r) auto

lemma delete_aux_ok:
  "fields_ok t \<Longrightarrow> balanced t \<Longrightarrow> ascending t \<Longrightarrow> key \<in> set (keys t) \<Longrightarrow>
   \<exists>t'. delete_aux t key n = Returned t' (n - 1) \<and> fields_ok t' \<and> balanced t'
        \<and> entries t' = filter (\<lambda>p. fst p \<noteq> key) (entries t)
        \<and> get_height t - 1 \<le> get_height t' \<and> get_height t' \<le> get_height t"
proof (induction t arbitrary: key)
  case Null
  then show ?case by (simp add: keys_def)
next
  case (Node l k v h s r)
  from Node.prems have fl: "fields_ok l" and fr: "fields_ok r" and bl: "balanced l" and br: "balanced r"
    and al: "ascending l" and ar: "ascending r"
    and lk: "\<forall>x\<in>set (keys l). x < k" and rk: "\<forall>y\<in>set (keys r). k < y"
    and h: "h = 1 + max (get_height l) (get_height r)"
    and bal: "\<bar>get_height l - get_height r\<bar> \<le> 1"
    by (auto simp: ascending_Node)
  have l0: "0 \<le> get_height l" and r0: "0 \<le> get_height r"
    using fl fr by (auto intro: get_height_nonneg)
  consider (lt) "key < k" | (gt) "k < key" | (eq) "key = k" by fastforce
  then show ?case
  proof cases
    case lt
    with Node.prems(4) rk have "key \<in> set (keys l)" by (auto simp: keys_Node)
    from Node.IH(1)[OF fl bl al this] obtain l' where
      l': "delete_aux l key n = Returned l' (n - 1)" "fields_ok l'" "balanced l'"
        "entries l' = filter (\<lambda>p. fst p \<noteq> key) (entries l)"
        "get_height l - 1 \<le> get_height l'" "get_height l' \<le> get_height l"
      by blast
    have "\<bar>get_height l' - get_height r\<bar> \<le> 2" using l'(5,6) bal by linarith
    from update_and_rebalance_ok[OF l'(2) fr l'(3) br this, of k v h s "n - 1"]
    obtain t' where t': "update_and_rebalance (Node l' k v h s r) (n - 1) = Returned t' (n - 1)"
      "fields_ok t'" "balanced t'" "entries t' = entries l' @ (k, v) # entries r"
      "max (get_height l') (get_height r) \<le> get_height t'"
      "get_height t' \<le> 1 + max (get_height l') (get_height r)"
      "\<bar>get_height l' - get_height r\<bar> \<le> 1 \<longrightarrow> get_height t' = 1 + max (get_height l') (get_height r)"
      by blast
    have "key \<notin> fst ` set ((k, v) # entries r)" using lt rk by (auto simp: keys_def)
    then have ent: "filter (\<lambda>p. fst p \<noteq> key) ((k, v) # entries r) = (k, v) # entries r"
      by (rule filter_keys_id)
    have hts: "get_height (Node l k v h s r) - 1 \<le> get_height t' \<and> get_height t' \<le> get_height (Node l k v h s r)"
      using t'(5,6,7) l'(5,6) bal h by (auto simp: max_def split: if_splits)
    show ?thesis using lt l'(1,4) t'(1,2,3,4) ent hts by auto
  next
    case gt
    with Node.prems(4) lk have "key \<in> set (keys r)" by (auto simp: keys_Node)
    from Node.IH(2)[OF fr br ar this] obtain r' where
      r': "delete_aux r key n = Returned r' (n - 1)" "fields_ok r'" "balanced r'"
        "entries r' = filter (\<lambda>p. fst p \<noteq> key) (entries r)"
        "get_height r - 1 \<le> get_height r'" "get_height r' \<le> get_height r"
      by blast
    have "\<bar>get_height l - get_height r'\<bar> \<le> 2" using r'(5,6) bal by linarith
    from update_and_rebalance_ok[OF fl r'(2) bl r'(3) this, of k v h s "n - 1"]
    obtain t' where t': "update_and_rebalance (Node l k v h s r') (n - 1) = Returned t' (n - 1)"
      "fields_ok t'" "balanced t'" "entries t' = entries l @ (k, v) # entries r'"
      "max (get_height l) (get_height r') \<le> get_height t'"
      "get_height t' \<le> 1 + max (get_height l) (get_height r')"
      "\<bar>get_height l - get_height r'\<bar> \<le> 1 \<longrightarrow> get_height t' = 1 + max (get_height l) (get_height r')"
      by blast
    have "key \<notin> fst ` set (entries l)" using gt lk by (auto simp: keys_def)
    then have ent: "filter (\<lambda>p. fst p \<noteq> key) (entries l) = entries l"
      by (rule filter_keys_id)
    have hts: "get_height (Node l k v h s r) - 1 \<le> get_height t' \<and> get_height t' \<le> get_height (Node l k v h s r)"
      using t'(5,6,7) r'(5,6) bal h by (auto simp: max_def split: if_splits)
    have ng: "\<not> key < k" using gt by simp
    show ?thesis using gt ng r'(1,4) t'(1,2,3,4) ent hts by auto
  next
    case eq
    have "k \<notin> fst ` set (entries l)" using lk by (auto simp: keys_def)
    then have entl: "filter (\<lambda>p. fst p \<noteq> k) (entries l) = entries l"
      by (rule filter_keys_id)
    have "k \<notin> fst ` set (entries r)" using rk by (auto simp: keys_def)
    then have entr: "filter (\<lambda>p. fst p \<noteq> k) (entries r) = entries r"
      by (rule filter_keys_id)
    have ent: "filter (\<lambda>p. fst p \<noteq> key) (entries (Node l k v h s r)) = entries l @ entries r"
      using entl entr eq by simp
    show ?thesis
    proof (cases "is_none l")
      case True
      then have "l = Null" by (simp add: is_none_Null)
      then show ?thesis using eq fr br h r0 entr
        by (cases "is_none r") (auto simp: is_leaf_iff is_none_Null)
    next
      case nl: False
      show ?thesis
      proof (cases "is_none r")
        case True
        then have "r = Null" by (simp add: is_none_Null)
        then show ?thesis using eq fl bl h l0 entl nl
          by (auto simp: is_leaf_iff is_none_Null)
      next
        case nr: False
        then obtain sk si rest where er: "entries r = (sk, si) # rest"
          by (cases "entries r") (auto simp: is_none_entries)
        with nr have gm: "get_minimal r = Some (sk, si)" by (simp add: get_minimal_hd)
        have skr: "sk \<in> set (keys r)" using er by (simp add: keys_def)
        from Node.IH(2)[OF fr br ar skr] obtain r' where
          r': "delete_aux r sk n = Returned r' (n - 1)" "fields_ok r'" "balanced r'"
            "entries r' = filter (\<lambda>p. fst p \<noteq> sk) (entries r)"
            "get_height r - 1 \<le> get_height r'" "get_height r' \<le> get_height r"
          by blast
        have "sorted_wrt (<) (map fst ((sk, si) # rest))"
          using ar er by (simp add: ascending_def keys_def)
        from filter_sorted_hd[OF this] have er': "entries r' = rest" using r'(4) er by simp
        have "\<bar>get_height l - get_height r'\<bar> \<le> 2" using r'(5,6) bal by linarith
        from update_and_rebalance_ok[OF fl r'(2) bl r'(3) this, of sk si h s "n - 1"]
        obtain t' where t': "update_and_rebalance (Node l sk si h s r') (n - 1) = Returned t' (n - 1)"
          "fields_ok t'" "balanced t'" "entries t' = entries l @ (sk, si) # entries r'"
          "max (get_height l) (get_height r') \<le> get_height t'"
          "get_height t' \<le> 1 + max (get_height l) (get_height r')"
          "\<bar>get_height l - get_height r'\<bar> \<le> 1 \<longrightarrow> get_height t' = 1 + max (get_height l) (get_height r')"
          by blast
        have hts: "get_height (Node l k v h s r) - 1 \<le> get_height t' \<and> get_height t' \<le> get_height (Node l k v h s r)"
          using t'(5,6,7) r'(5,6) bal h by (auto simp: max_def split: if_splits)
        have "delete_aux (Node l k v h s r) key n = Returned t' (n - 1)"
          using eq nl nr gm r'(1) t'(1) by (simp add: is_leaf_iff is_none_Null)
        then show ?thesis using t'(2,3,4) er' er ent hts by auto
      qed
    qed
  qed
qed

lemma delete_aux_absent:
  "key \<notin> set (keys t) \<Longrightarrow> delete_aux t key n = Raised ValueError t n"
  by (induction t) (auto simp: keys_Node)

lemma rebalance_error: "rebalance t = Inl e \<Longrightarrow> e = AttributeError"
  by (auto simp: rebalance.simps split: if_splits anode.splits sum.splits
      elim: left_rotate.elims right_rotate.elims)

lemma update_and_rebalance_error:
  "update_and_rebalance t n = Raised e t' n' \<Longrightarrow> e = AttributeError"
  by (auto simp: update_and_rebalance_def split: sum.splits dest: rebalance_error)

lemma insert_aux_KeyError_atomic:
  "insert_aux t key item n = Raised KeyError t' n' \<Longrightarrow> t' = t \<and> n' = n"
proof (induction t arbitrary: t' n')
  case Null
  then show ?case by (auto dest: update_and_rebalance_error)
next
  case (Node l k v h s r)
  then show ?case
    by (auto split: if_splits aux_result.splits dest: update_and_rebalance_error)
qed

subsection \<open>Rotation unit cases\<close>

text \<open>
  C8. Inserting the keys 1, 2, 3 in that order into an empty tree, with any
  items, succeeds each time and leaves root key 2 with height 2, left child
  key 1 and right child key 3 (a single left rotation); inserting 3, 1, 2
  gives the same shape (a left rotation of the left child, then a right
  rotation of the root).
\<close>

theorem C8_three_inserts_shape:
  "fst (insert_item (snd (insert_item (snd (insert_item empty_tree (1::int) a)) 2 b)) 3 c) = Inr ()
   \<and> snd (insert_item (snd (insert_item (snd (insert_item empty_tree (1::int) a)) 2 b)) 3 c)
       = \<lparr>root = Node (Node Null 1 a 1 1 Null) 2 b 2 3 (Node Null 3 c 1 1 Null), length' = 3\<rparr>
   \<and> fst (insert_item (snd (insert_item (snd (insert_item empty_tree (3::int) c)) 1 a)) 2 b) = Inr ()
   \<and> snd (insert_item (snd (insert_item (snd (insert_item empty_tree (3::int) c)) 1 a)) 2 b)
       = \<lparr>root = Node (Node Null 1 a 1 1 Null) 2 b 2 3 (Node Null 3 c 1 1 Null), length' = 3\<rparr>"
  by (simp add: insert_item_def empty_tree_def update_and_rebalance_def rebalance.simps)

subsection \<open>Invariant preservation\<close>

lemma get_tree_size_entries: "fields_ok t \<Longrightarrow> get_tree_size t = int (length (entries t))"
  by (induction t) auto

lemma ascending_distinct_keys: "ascending t \<Longrightarrow> distinct (keys t)"
  by (simp add: ascending_def strict_sorted_iff)

lemma ascending_distinct_entries: "ascending t \<Longrightarrow> distinct (entries t)"
  using ascending_distinct_keys[of t] by (simp add: keys_def distinct_map)

lemma length_filter_key:
  "distinct (map fst xs) \<Longrightarrow> k \<in> fst ` set xs \<Longrightarrow>
   Suc (length (filter (\<lambda>p. fst p \<noteq> k) xs)) = length xs"
  by (induction xs) (auto simp: filter_keys_id)

lemma keys_filter: "map fst (filter (\<lambda>p. fst p \<noteq> k) xs) = filter (\<lambda>x. x \<noteq> k) (map fst xs)"
  by (induction xs) auto

lemma count_ok_fields:
  "fields_ok t \<Longrightarrow> n = int (length (entries t)) \<Longrightarrow> count_ok \<lparr>root = t, length' = n\<rparr>"
  by (simp add: count_ok_def get_tree_size_entries)

lemma insert_item_invariants:
  assumes "tree_invariants T" and "insert_item T key item = (Inr u, T')"
  shows "tree_invariants T'"
proof -
  from assms(1) have f: "fields_ok (root T)" and b: "balanced (root T)" and a: "ascending (root T)"
    and c: "length' T = int (length (entries (root T)))"
    by (auto simp: tree_invariants_def count_ok_def)
  have nk: "key \<notin> set (keys (root T))"
  proof
    assume "key \<in> set (keys (root T))"
    from insert_aux_dup[OF a this, of item "length' T"] assms(2) show False
      by (simp add: insert_item_def)
  qed
  from insert_aux_ok[OF f b a nk, of item "length' T"] obtain t' where
    t': "insert_aux (root T) key item (length' T) = Returned t' (length' T + 1)"
      "fields_ok t'" "balanced t'" "ascending t'"
      "set (entries t') = insert (key, item) (set (entries (root T)))"
    by blast
  have T': "T' = \<lparr>root = t', length' = length' T + 1\<rparr>"
    using assms(2) t'(1) by (simp add: insert_item_def)
  have "(key, item) \<notin> set (entries (root T))" using nk by (force simp: keys_def)
  then have "card (set (entries t')) = Suc (card (set (entries (root T))))"
    using t'(5) by simp
  then have "length (entries t') = Suc (length (entries (root T)))"
    using ascending_distinct_entries[OF t'(4)] ascending_distinct_entries[OF a]
    by (simp add: distinct_card)
  then have "count_ok T'" unfolding T' using c t'(2) by (intro count_ok_fields) auto
  then show ?thesis using t'(2,3,4) T' by (simp add: tree_invariants_def)
qed

lemma delete_item_invariants:
  assumes "tree_invariants T" and "delete_item T key = (Inr u, T')"
  shows "tree_invariants T'"
proof -
  from assms(1) have f: "fields_ok (root T)" and b: "balanced (root T)" and a: "ascending (root T)"
    and c: "length' T = int (length (entries (root T)))"
    by (auto simp: tree_invariants_def count_ok_def)
  have k: "key \<in> set (keys (root T))"
  proof (rule ccontr)
    assume "key \<notin> set (keys (root T))"
    from delete_aux_absent[OF this, of "length' T"] assms(2) show False
      by (simp add: delete_item_def)
  qed
  from delete_aux_ok[OF f b a k, of "length' T"] obtain t' where
    t': "delete_aux (root T) key (length' T) = Returned t' (length' T - 1)"
      "fields_ok t'" "balanced t'"
      "entries t' = filter (\<lambda>p. fst p \<noteq> key) (entries (root T))"
    by blast
  have T': "T' = \<lparr>root = t', length' = length' T - 1\<rparr>"
    using assms(2) t'(1) by (simp add: delete_item_def)
  have asc: "ascending t'"
    using a t'(4) by (simp add: ascending_def keys_def keys_filter sorted_wrt_filter)
  have "Suc (length (entries t')) = length (entries (root T))"
    unfolding t'(4) using ascending_distinct_keys[OF a] k
    by (intro length_filter_key) (auto simp: keys_def)
  then have "count_ok T'" unfolding T' using c t'(2) by (intro count_ok_fields) auto
  then show ?thesis using t'(2,3) asc T' by (simp add: tree_invariants_def)
qed

lemma run_operations_invariants:
  "tree_invariants T \<Longrightarrow> run_operations ops T = Some T' \<Longrightarrow> tree_invariants T'"
proof (induction ops arbitrary: T)
  case Nil
  then show ?case by simp
next
  case (Cons x xs)
  obtain res T1 where ap: "apply_operation x T = (res, T1)" by (cases "apply_operation x T")
  with Cons.prems(2) obtain u where res: "res = Inr u" and run: "run_operations xs T1 = Some T'"
    by (cases res) auto
  have "tree_invariants T1"
  proof (cases x)
    case (Insert key item)
    with ap res have "insert_item T key item = (Inr u, T1)" by simp
    with Cons.prems(1) show ?thesis by (rule insert_item_invariants)
  next
    case (Delete key)
    with ap res have "delete_item T key = (Inr u, T1)" by simp
    with Cons.prems(1) show ?thesis by (rule delete_item_invariants)
  qed
  from Cons.IH[OF this run] show ?case .
qed

lemma empty_tree_invariants: "tree_invariants empty_tree"
  by (simp add: tree_invariants_def empty_tree_def count_ok_def ascending_def keys_def)

lemma get_height_tree_height: "fields_ok t \<Longrightarrow> get_height t = tree_height t"
  by (induction t) auto

lemma balanced_height_balanced: "fields_ok t \<Longrightarrow> balanced t \<Longrightarrow> height_balanced t"
  by (induction t) (auto simp: get_height_tree_height)

text \<open>
  C1. Whenever a finite sequence of inserts and deletes, run from the empty
  tree, succeeds at every step, the resulting tree is balanced at every node
  (by the cached heights, and by the heights counted along paths, which they
  equal), has every cached height and size equal to its recurrence, has
  strictly ascending in-order keys, and has a count equal to the number of
  nodes and to the root's cached size when there is a root.
\<close>

theorem C1_invariants_after_operations:
  "run_operations ops empty_tree = Some T \<Longrightarrow>
   balanced (root T) \<and> height_balanced (root T) \<and> fields_ok (root T)
   \<and> ascending (root T) \<and> count_ok T"
  using run_operations_invariants[OF empty_tree_invariants, of ops T]
  by (simp add: tree_invariants_def balanced_height_balanced)

theorem C1_invariants_after_operations_witness:
  "run_operations [Insert (5::int) ''e'', Insert 3 ''c'', Insert 8 ''h'', Insert 4 ''d'', Delete 5, Insert 1 ''a'']
     empty_tree
   = Some \<lparr>root = Node (Node (Node Null 1 ''a'' 1 1 Null) 3 ''c'' 2 2 Null) 4 ''d'' 3 4
                      (Node Null 8 ''h'' 1 1 Null), length' = 4\<rparr>
   \<and> balanced (Node (Node (Node Null (1::int) ''a'' 1 1 Null) 3 ''c'' 2 2 Null) 4 ''d'' 3 4
                      (Node Null 8 ''h'' 1 1 Null))
   \<and> fields_ok (Node (Node (Node Null (1::int) ''a'' 1 1 Null) 3 ''c'' 2 2 Null) 4 ''d'' 3 4
                      (Node Null 8 ''h'' 1 1 Null))
   \<and> ascending (Node (Node (Node Null (1::int) ''a'' 1 1 Null) 3 ''c'' 2 2 Null) 4 ''d'' 3 4
                      (Node Null 8 ''h'' 1 1 Null))
   \<and> count_ok \<lparr>root = Node (Node (Node Null (1::int) ''a'' 1 1 Null) 3 ''c'' 2 2 Null) 4 ''d'' 3 4
                      (Node Null 8 ''h'' 1 1 Null), length' = 4\<rparr>"
  using C1_invariants_after_operations[of "[Insert (5::int) ''e'', Insert 3 ''c'', Insert 8 ''h'', Insert 4 ''d'', Delete 5, Insert 1 ''a'']"]
  by (simp add: insert_item_def delete_item_def empty_tree_def update_and_rebalance_def rebalance.simps)

subsection \<open>Insert contract\<close>

lemma lookup_aux_map_of:
  "ascending t \<Longrightarrow> lookup_aux t key = map_of (entries t) key"
proof (induction t)
  case Null
  then show ?case by simp
next
  case (Node l k v h s r)
  from Node.prems have al: "ascending l" and ar: "ascending r"
    and lk: "\<forall>x\<in>set (keys l). x < k" and rk: "\<forall>y\<in>set (keys r). k < y"
    by (auto simp: ascending_Node)
  consider (lt) "key < k" | (gt) "k < key" | (eq) "key = k" by fastforce
  then show ?case
  proof cases
    case lt
    then have "key \<notin> fst ` set ((k, v) # entries r)" using rk by (auto simp: keys_def)
    then have "map_of ((k, v) # entries r) key = None" by (subst map_of_eq_None_iff) simp
    then show ?thesis using lt Node.IH(1)[OF al]
      by (simp add: map_add_def split: option.splits)
  next
    case gt
    then have "key \<notin> fst ` set (entries l)" using lk by (auto simp: keys_def)
    then have "map_of (entries l) key = None" by (subst map_of_eq_None_iff) simp
    then show ?thesis using gt Node.IH(2)[OF ar]
      by (auto simp: map_add_def split: option.splits)
  next
    case eq
    then have "key \<notin> fst ` set (entries l)" using lk by (auto simp: keys_def)
    then have "map_of (entries l) key = None" by (subst map_of_eq_None_iff) simp
    then show ?thesis using eq
      by (simp add: map_add_def split: option.splits)
  qed
qed

lemma lookup_aux_Some_iff:
  "ascending t \<Longrightarrow> lookup_aux t key = Some item \<longleftrightarrow> (key, item) \<in> set (entries t)"
  using ascending_distinct_keys[of t]
  by (simp add: lookup_aux_map_of keys_def)

lemma lookup_aux_eqI:
  assumes "ascending t" "ascending t'"
    and "\<And>y. (key, y) \<in> set (entries t') \<longleftrightarrow> (key, y) \<in> set (entries t)"
  shows "lookup_aux t' key = lookup_aux t key"
proof (cases "lookup_aux t key")
  case None
  show ?thesis
  proof (cases "lookup_aux t' key")
    case None
    with \<open>lookup_aux t key = None\<close> show ?thesis by simp
  next
    case (Some y)
    then have "(key, y) \<in> set (entries t)" using assms by (simp add: lookup_aux_Some_iff)
    then have "lookup_aux t key = Some y" using assms(1) by (simp add: lookup_aux_Some_iff)
    with None show ?thesis by simp
  qed
next
  case (Some y)
  then have "(key, y) \<in> set (entries t')" using assms by (simp add: lookup_aux_Some_iff)
  then have "lookup_aux t' key = Some y" using assms(2) by (simp add: lookup_aux_Some_iff)
  with Some show ?thesis by simp
qed

text \<open>
  C3. On a tree satisfying the invariants: inserting a key that is present
  raises \<^verbatim>\<open>KeyError\<close>; inserting an absent key succeeds, adds exactly 1 to
  the count, makes lookup of that key yield the inserted item, and keeps every
  (key, item) pair that was present, lookup of every other key included.
\<close>

theorem C3_insert_contract:
  assumes "tree_invariants T"
  shows "(key \<in> set (keys (root T)) \<longrightarrow> fst (insert_item T key item) = Inl KeyError)
       \<and> (key \<notin> set (keys (root T)) \<longrightarrow>
            (\<exists>T'. insert_item T key item = (Inr (), T')
                \<and> length' T' = length' T + 1
                \<and> lookup T' key = Some item
                \<and> set (entries (root T)) \<subseteq> set (entries (root T'))
                \<and> (\<forall>k'. k' \<noteq> key \<longrightarrow> lookup T' k' = lookup T k')))"
proof (intro conjI impI)
  from assms have a: "ascending (root T)" by (simp add: tree_invariants_def)
  assume "key \<in> set (keys (root T))"
  from insert_aux_dup[OF a this, of item "length' T"]
  show "fst (insert_item T key item) = Inl KeyError"
    by (simp add: insert_item_def)
next
  from assms have f: "fields_ok (root T)" and b: "balanced (root T)" and a: "ascending (root T)"
    by (auto simp: tree_invariants_def)
  assume nk: "key \<notin> set (keys (root T))"
  from insert_aux_ok[OF f b a nk, of item "length' T"] obtain t' where
    t': "insert_aux (root T) key item (length' T) = Returned t' (length' T + 1)"
      "ascending t'"
      "set (entries t') = insert (key, item) (set (entries (root T)))"
    by blast
  let ?T' = "\<lparr>root = t', length' = length' T + 1\<rparr>"
  have 1: "insert_item T key item = (Inr (), ?T')" using t'(1) by (simp add: insert_item_def)
  have 2: "lookup ?T' key = Some item"
    using t'(2,3) by (simp add: lookup_def lookup_aux_Some_iff)
  have 3: "\<forall>k'. k' \<noteq> key \<longrightarrow> lookup ?T' k' = lookup T k'"
  proof (intro allI impI)
    fix k' assume "k' \<noteq> key"
    then have "\<And>y. (k', y) \<in> set (entries t') \<longleftrightarrow> (k', y) \<in> set (entries (root T))"
      using t'(3) by auto
    from lookup_aux_eqI[OF a t'(2) this] show "lookup ?T' k' = lookup T k'"
      by (simp add: lookup_def)
  qed
  show "\<exists>T'. insert_item T key item = (Inr (), T')
                \<and> length' T' = length' T + 1
                \<and> lookup T' key = Some item
                \<and> set (entries (root T)) \<subseteq> set (entries (root T'))
                \<and> (\<forall>k'. k' \<noteq> key \<longrightarrow> lookup T' k' = lookup T k')"
    using 1 2 3 t'(3) by (intro exI[of _ ?T']) auto
qed

theorem C3_insert_contract_witness:
  "tree_invariants \<lparr>root = Node Null (2::int) ''b'' 1 1 Null, length' = 1\<rparr>
   \<and> fst (insert_item \<lparr>root = Node Null (2::int) ''b'' 1 1 Null, length' = 1\<rparr> 2 ''x'') = Inl KeyError
   \<and> (\<exists>T'. insert_item \<lparr>root = Node Null (2::int) ''b'' 1 1 Null, length' = 1\<rparr> 3 ''c'' = (Inr (), T')
         \<and> length' T' = 2 \<and> lookup T' 3 = Some ''c'' \<and> lookup T' 2 = Some ''b'')"
proof -
  let ?T = "\<lparr>root = Node Null (2::int) ''b'' 1 1 Null, length' = 1\<rparr>"
  have inv: "tree_invariants ?T"
    by (simp add: tree_invariants_def count_ok_def ascending_def keys_def)
  have l2: "lookup ?T 2 = Some ''b''" by (simp add: lookup_def)
  from C3_insert_contract[OF inv, of 2 "''x''"]
  have a: "fst (insert_item ?T 2 ''x'') = Inl KeyError" by (simp add: keys_def)
  from C3_insert_contract[OF inv, of 3 "''c''"] obtain T' where
    "insert_item ?T 3 ''c'' = (Inr (), T')" "length' T' = length' ?T + 1"
    "lookup T' 3 = Some ''c''" "\<forall>k'. k' \<noteq> 3 \<longrightarrow> lookup T' k' = lookup ?T k'"
    by (auto simp: keys_def)
  then have "insert_item ?T 3 ''c'' = (Inr (), T') \<and> length' T' = 2 \<and> lookup T' 3 = Some ''c''
      \<and> lookup T' 2 = Some ''b''"
    using l2 by auto
  then show ?thesis using inv a by blast
qed

subsection \<open>Delete contract and atomic failures\<close>

lemma get_minimal_in_keys:
  "get_minimal t = Some (sk, si) \<Longrightarrow> sk \<in> set (keys t)"
  by (induction t rule: get_minimal.induct) (auto simp: keys_def)

lemma delete_aux_present_no_ValueError:
  "ascending t \<Longrightarrow> key \<in> set (keys t) \<Longrightarrow> delete_aux t key n \<noteq> Raised ValueError t' n'"
proof (induction t arbitrary: key t' n')
  case Null
  then show ?case by (simp add: keys_def)
next
  case (Node l k v h s r)
  from Node.prems have al: "ascending l" and ar: "ascending r"
    and lk: "\<forall>x\<in>set (keys l). x < k" and rk: "\<forall>y\<in>set (keys r). k < y"
    by (auto simp: ascending_Node)
  consider (lt) "key < k" | (gt) "k < key" | (eq) "key = k" by fastforce
  then show ?case
  proof cases
    case lt
    with Node.prems(2) rk have "key \<in> set (keys l)" by (auto simp: keys_Node)
    from Node.IH(1)[OF al this] show ?thesis using lt
      by (auto split: aux_result.splits dest: update_and_rebalance_error)
  next
    case gt
    with Node.prems(2) lk have "key \<in> set (keys r)" by (auto simp: keys_Node)
    from Node.IH(2)[OF ar this] show ?thesis using gt
      by (auto split: aux_result.splits dest: update_and_rebalance_error)
  next
    case eq
    show ?thesis
    proof (cases "get_minimal r")
      case None
      then show ?thesis using eq by (auto split: aux_result.splits)
    next
      case (Some p)
      obtain sk si where p: "p = (sk, si)" by (cases p)
      with Some have "sk \<in> set (keys r)" by (simp add: get_minimal_in_keys)
      from Node.IH(2)[OF ar this] show ?thesis using eq Some p
        by (auto split: aux_result.splits dest: update_and_rebalance_error)
    qed
  qed
qed

lemma delete_aux_ValueError_atomic:
  assumes "ascending t" and "delete_aux t key n = Raised ValueError t' n'"
  shows "t' = t \<and> n' = n"
proof -
  have "key \<notin> set (keys t)"
    using delete_aux_present_no_ValueError[OF assms(1), of key n t' n'] assms(2) by blast
  from delete_aux_absent[OF this, of n] assms(2) show ?thesis by simp
qed

text \<open>
  C5. Failing operations are atomic. If insert raises \<^verbatim>\<open>KeyError\<close>, the tree
  (every node with its key, item, height and size, and the count) is as it was
  before the call, and on a tree with ascending keys insert of a present key
  does raise it. Delete of a key that is not in the tree raises
  \<^verbatim>\<open>ValueError\<close> with the tree as it was, and on a tree with ascending keys
  every \<^verbatim>\<open>ValueError\<close> of delete leaves the tree as it was.
\<close>

theorem C5_failures_atomic:
  "(insert_item T key item = (Inl KeyError, T') \<longrightarrow> T' = T)
   \<and> (ascending (root T) \<and> key \<in> set (keys (root T)) \<longrightarrow>
        insert_item T key item = (Inl KeyError, T))
   \<and> (key \<notin> set (keys (root T)) \<longrightarrow> delete_item T key = (Inl ValueError, T))
   \<and> (ascending (root T) \<and> delete_item T key = (Inl ValueError, T') \<longrightarrow> T' = T)"
proof (intro conjI impI)
  assume "insert_item T key item = (Inl KeyError, T')"
  then obtain t' n' where "insert_aux (root T) key item (length' T) = Raised KeyError t' n'"
    and T': "T' = \<lparr>root = t', length' = n'\<rparr>"
    by (auto simp: insert_item_def split: aux_result.splits)
  from insert_aux_KeyError_atomic[OF this(1)] T' show "T' = T" by simp
next
  assume "ascending (root T) \<and> key \<in> set (keys (root T))"
  then have "insert_aux (root T) key item (length' T) = Raised KeyError (root T) (length' T)"
    by (simp add: insert_aux_dup)
  then show "insert_item T key item = (Inl KeyError, T)" by (simp add: insert_item_def)
next
  assume "key \<notin> set (keys (root T))"
  then have "delete_aux (root T) key (length' T) = Raised ValueError (root T) (length' T)"
    by (rule delete_aux_absent)
  then show "delete_item T key = (Inl ValueError, T)" by (simp add: delete_item_def)
next
  assume a: "ascending (root T) \<and> delete_item T key = (Inl ValueError, T')"
  then obtain t' n' where "delete_aux (root T) key (length' T) = Raised ValueError t' n'"
    and T': "T' = \<lparr>root = t', length' = n'\<rparr>"
    by (auto simp: delete_item_def split: aux_result.splits)
  from delete_aux_ValueError_atomic[OF _ this(1)] a T' show "T' = T" by simp
qed

theorem C5_failures_atomic_witness:
  "insert_item \<lparr>root = Node (Node Null (1::int) ''a'' 1 1 Null) 2 ''b'' 2 2 Null, length' = 2\<rparr> 1 ''x''
     = (Inl KeyError, \<lparr>root = Node (Node Null 1 ''a'' 1 1 Null) 2 ''b'' 2 2 Null, length' = 2\<rparr>)
   \<and> delete_item \<lparr>root = Node (Node Null (1::int) ''a'' 1 1 Null) 2 ''b'' 2 2 Null, length' = 2\<rparr> 7
     = (Inl ValueError, \<lparr>root = Node (Node Null 1 ''a'' 1 1 Null) 2 ''b'' 2 2 Null, length' = 2\<rparr>)"
  using C5_failures_atomic[of "\<lparr>root = Node (Node Null (1::int) ''a'' 1 1 Null) 2 ''b'' 2 2 Null, length' = 2\<rparr>"
      1 "''x''" "\<lparr>root = Node (Node Null (1::int) ''a'' 1 1 Null) 2 ''b'' 2 2 Null, length' = 2\<rparr>"]
    C5_failures_atomic[of "\<lparr>root = Node (Node Null (1::int) ''a'' 1 1 Null) 2 ''b'' 2 2 Null, length' = 2\<rparr>"
      7 "''x''" "\<lparr>root = Node (Node Null (1::int) ''a'' 1 1 Null) 2 ''b'' 2 2 Null, length' = 2\<rparr>"]
  by (simp add: ascending_def keys_def)

text \<open>
  C4. On a tree satisfying the invariants: deleting an absent key raises
  \<^verbatim>\<open>ValueError\<close>; deleting a present key succeeds, takes exactly 1 off the
  count and removes exactly the entry of that key from the in-order sequence.
  At a matched node with two children (any subtree that satisfies the
  invariants), the successor is the first in-order entry of the right subtree,
  the recursive call removes exactly that entry from the right subtree, and
  the node continues with the successor's key and item in place of its own.
\<close>

theorem C4_delete_contract:
  "(tree_invariants T \<and> key \<notin> set (keys (root T)) \<longrightarrow> fst (delete_item T key) = Inl ValueError)
   \<and> (tree_invariants T \<and> key \<in> set (keys (root T)) \<longrightarrow>
        (\<exists>T'. delete_item T key = (Inr (), T')
            \<and> length' T' = length' T - 1
            \<and> entries (root T') = filter (\<lambda>p. fst p \<noteq> key) (entries (root T))))
   \<and> (fields_ok (Node l k v h s r) \<and> balanced (Node l k v h s r) \<and> ascending (Node l k v h s r)
        \<and> \<not> is_none l \<and> \<not> is_none r \<longrightarrow>
        (\<exists>sk si r'. get_successor (Node l k v h s r) = Some (sk, si)
            \<and> (sk, si) = hd (entries r)
            \<and> delete_aux r sk n = Returned r' (n - 1)
            \<and> entries r' = tl (entries r)
            \<and> delete_aux (Node l k v h s r) k n = update_and_rebalance (Node l sk si h s r') (n - 1)))"
proof (intro conjI impI)
  assume "tree_invariants T \<and> key \<notin> set (keys (root T))"
  then have "delete_aux (root T) key (length' T) = Raised ValueError (root T) (length' T)"
    by (simp add: delete_aux_absent)
  then show "fst (delete_item T key) = Inl ValueError" by (simp add: delete_item_def)
next
  assume a: "tree_invariants T \<and> key \<in> set (keys (root T))"
  then have f: "fields_ok (root T)" and b: "balanced (root T)" and asc: "ascending (root T)"
    and k: "key \<in> set (keys (root T))"
    by (auto simp: tree_invariants_def)
  from delete_aux_ok[OF f b asc k, of "length' T"] obtain t' where
    "delete_aux (root T) key (length' T) = Returned t' (length' T - 1)"
    "entries t' = filter (\<lambda>p. fst p \<noteq> key) (entries (root T))"
    by blast
  then show "\<exists>T'. delete_item T key = (Inr (), T')
            \<and> length' T' = length' T - 1
            \<and> entries (root T') = filter (\<lambda>p. fst p \<noteq> key) (entries (root T))"
    by (simp add: delete_item_def)
next
  assume a: "fields_ok (Node l k v h s r) \<and> balanced (Node l k v h s r) \<and> ascending (Node l k v h s r)
        \<and> \<not> is_none l \<and> \<not> is_none r"
  then have fr: "fields_ok r" and br: "balanced r" and ar: "ascending r"
    and nl: "\<not> is_none l" and nr: "\<not> is_none r"
    by (auto simp: ascending_Node)
  obtain sk si rest where er: "entries r = (sk, si) # rest"
    using nr by (cases "entries r") (auto simp: is_none_entries)
  with nr have gm: "get_minimal r = Some (sk, si)" by (simp add: get_minimal_hd)
  have skr: "sk \<in> set (keys r)" using er by (simp add: keys_def)
  from delete_aux_ok[OF fr br ar skr, of n] obtain r' where
    r': "delete_aux r sk n = Returned r' (n - 1)"
      "entries r' = filter (\<lambda>p. fst p \<noteq> sk) (entries r)"
    by blast
  have "sorted_wrt (<) (map fst ((sk, si) # rest))"
    using ar er by (simp add: ascending_def keys_def)
  from filter_sorted_hd[OF this] have er': "entries r' = rest" using r'(2) er by simp
  have "delete_aux (Node l k v h s r) k n = update_and_rebalance (Node l sk si h s r') (n - 1)"
    using nl nr gm r'(1) by (simp add: is_leaf_iff is_none_Null)
  then show "\<exists>sk si r'. get_successor (Node l k v h s r) = Some (sk, si)
            \<and> (sk, si) = hd (entries r)
            \<and> delete_aux r sk n = Returned r' (n - 1)
            \<and> entries r' = tl (entries r)
            \<and> delete_aux (Node l k v h s r) k n = update_and_rebalance (Node l sk si h s r') (n - 1)"
    using gm er er' r'(1) by auto
qed

theorem C4_delete_contract_witness:
  "tree_invariants \<lparr>root = Node (Node Null (1::int) ''a'' 1 1 Null) 2 ''b'' 2 3 (Node Null 3 ''c'' 1 1 Null),
                     length' = 3\<rparr>
   \<and> 2 \<in> set (keys (Node (Node Null (1::int) ''a'' 1 1 Null) 2 ''b'' 2 3 (Node Null 3 ''c'' 1 1 Null)))
   \<and> delete_item \<lparr>root = Node (Node Null (1::int) ''a'' 1 1 Null) 2 ''b'' 2 3 (Node Null 3 ''c'' 1 1 Null),
                     length' = 3\<rparr> 2
       = (Inr (), \<lparr>root = Node (Node Null 1 ''a'' 1 1 Null) 3 ''c'' 2 2 Null, length' = 2\<rparr>)
   \<and> fst (delete_item \<lparr>root = Node (Node Null (1::int) ''a'' 1 1 Null) 2 ''b'' 2 3 (Node Null 3 ''c'' 1 1 Null),
                     length' = 3\<rparr> 7) = Inl ValueError
   \<and> get_successor (Node (Node Null (1::int) ''a'' 1 1 Null) 2 ''b'' 2 3 (Node Null 3 ''c'' 1 1 Null))
       = Some (3, ''c'')
   \<and> delete_aux (Node Null (3::int) ''c'' 1 1 Null) 3 3 = Returned Null 2"
  using C4_delete_contract[of "\<lparr>root = Node (Node Null (1::int) ''a'' 1 1 Null) 2 ''b'' 2 3 (Node Null 3 ''c'' 1 1 Null),
                     length' = 3\<rparr>" 2 "Node Null (1::int) ''a'' 1 1 Null" 2 "''b''" 2 3 "Node Null 3 ''c'' 1 1 Null" 3]
    C4_delete_contract[of "\<lparr>root = Node (Node Null (1::int) ''a'' 1 1 Null) 2 ''b'' 2 3 (Node Null 3 ''c'' 1 1 Null),
                     length' = 3\<rparr>" 7 "Node Null (1::int) ''a'' 1 1 Null" 2 "''b''" 2 3 "Node Null 3 ''c'' 1 1 Null" 3]
  by (simp add: tree_invariants_def count_ok_def ascending_def keys_def delete_item_def
      update_and_rebalance_def rebalance.simps)

subsection \<open>Maximum and rotations\<close>

lemma get_max_loop_last:
  "\<not> is_none t \<Longrightarrow> get_max_loop t = Inr (last (entries t))"
  by (induction t rule: get_max_loop.induct) auto

lemma sorted_wrt_last_max:
  "sorted_wrt (<) xs \<Longrightarrow> x \<in> set xs \<Longrightarrow> x \<le> last xs"
  for xs :: "'k::linorder list"
  by (induction xs) (auto simp: less_imp_le)

text \<open>
  C7. On a non-empty tree with ascending keys \<^verbatim>\<open>get_max\<close> returns an entry
  of the tree whose key is greater than or equal to every key present, namely
  the last in-order entry, and leaves the tree as it was; on an empty tree it
  raises (\<^verbatim>\<open>AttributeError\<close>, from reading \<^verbatim>\<open>None.right\<close>) and leaves the
  tree as it was.
\<close>

theorem C7_get_max:
  "(\<not> is_none (root T) \<and> ascending (root T) \<longrightarrow>
      (\<exists>k v. get_max T = (Inr (k, v), T)
          \<and> (k, v) \<in> set (entries (root T))
          \<and> (k, v) = last (entries (root T))
          \<and> (\<forall>k'\<in>set (keys (root T)). k' \<le> k)))
   \<and> (is_none (root T) \<longrightarrow> get_max T = (Inl AttributeError, T))"
proof (intro conjI impI)
  assume a: "\<not> is_none (root T) \<and> ascending (root T)"
  then have ne: "entries (root T) \<noteq> []" by (simp add: is_none_entries)
  obtain k v where kv: "last (entries (root T)) = (k, v)" by (cases "last (entries (root T))")
  have 1: "get_max T = (Inr (k, v), T)"
    using a kv by (simp add: get_max_def get_max_loop_last)
  have 2: "(k, v) \<in> set (entries (root T))" using ne kv last_in_set by metis
  have "last (keys (root T)) = k" using ne kv by (simp add: keys_def last_map)
  then have 3: "\<forall>k'\<in>set (keys (root T)). k' \<le> k"
    using a sorted_wrt_last_max[of "keys (root T)"] by (auto simp: ascending_def)
  show "\<exists>k v. get_max T = (Inr (k, v), T)
          \<and> (k, v) \<in> set (entries (root T))
          \<and> (k, v) = last (entries (root T))
          \<and> (\<forall>k'\<in>set (keys (root T)). k' \<le> k)"
    using 1 2 3 kv by auto
next
  assume "is_none (root T)"
  then show "get_max T = (Inl AttributeError, T)"
    by (simp add: get_max_def is_none_Null)
qed

theorem C7_get_max_witness:
  "get_max \<lparr>root = Node (Node Null (1::int) ''a'' 1 1 Null) 2 ''b'' 2 3 (Node Null 3 ''c'' 1 1 Null),
            length' = 3\<rparr>
     = (Inr (3, ''c''),
        \<lparr>root = Node (Node Null 1 ''a'' 1 1 Null) 2 ''b'' 2 3 (Node Null 3 ''c'' 1 1 Null), length' = 3\<rparr>)
   \<and> get_max (empty_tree :: (int, string) AVLTree) = (Inl AttributeError, empty_tree)"
  using C7_get_max[of "\<lparr>root = Node (Node Null (1::int) ''a'' 1 1 Null) 2 ''b'' 2 3 (Node Null 3 ''c'' 1 1 Null),
            length' = 3\<rparr>"]
    C7_get_max[of "empty_tree :: (int, string) AVLTree"]
  by (simp add: ascending_def keys_def empty_tree_def)

lemma entries_recompute: "entries (recompute t) = entries t"
  by (cases t) auto

lemma skeleton_recompute: "skeleton (recompute t) = skeleton t"
  by (cases t) auto

text \<open>
  C9. For a node with a right child, \<^verbatim>\<open>left_rotate\<close> succeeds and
  \<^verbatim>\<open>right_rotate\<close> of its result puts every node back under its original
  parent: the result is the original subtree with the cached fields of the
  node and of its right child recomputed, so the same tree when those two were
  up to date. The mirror statement holds for a node with a left child. Every
  rotation that applies keeps the in-order sequence of entries, hence the
  in-order keys and the number of nodes.
\<close>

theorem C9_rotations:
  "(\<not> is_none c \<longrightarrow>
      (\<exists>m. left_rotate (Node l k v h s c) = Inr m
         \<and> right_rotate m = Inr (recompute (Node l k v h s (recompute c)))
         \<and> skeleton (recompute (Node l k v h s (recompute c))) = skeleton (Node l k v h s c)
         \<and> (fields_ok (Node l k v h s c) \<longrightarrow> right_rotate m = Inr (Node l k v h s c))))
   \<and> (\<not> is_none c \<longrightarrow>
      (\<exists>m. right_rotate (Node c k v h s r) = Inr m
         \<and> left_rotate m = Inr (recompute (Node (recompute c) k v h s r))
         \<and> skeleton (recompute (Node (recompute c) k v h s r)) = skeleton (Node c k v h s r)
         \<and> (fields_ok (Node c k v h s r) \<longrightarrow> left_rotate m = Inr (Node c k v h s r))))
   \<and> (left_rotate t = Inr m \<longrightarrow>
        entries m = entries t \<and> keys m = keys t \<and> length (entries m) = length (entries t))
   \<and> (right_rotate t = Inr m \<longrightarrow>
        entries m = entries t \<and> keys m = keys t \<and> length (entries m) = length (entries t))"
proof (intro conjI impI)
  assume "\<not> is_none c"
  then obtain cl ck cv ch cs cr where "c = Node cl ck cv ch cs cr" by (cases c) auto
  then show "\<exists>m. left_rotate (Node l k v h s c) = Inr m
         \<and> right_rotate m = Inr (recompute (Node l k v h s (recompute c)))
         \<and> skeleton (recompute (Node l k v h s (recompute c))) = skeleton (Node l k v h s c)
         \<and> (fields_ok (Node l k v h s c) \<longrightarrow> right_rotate m = Inr (Node l k v h s c))"
    by auto
next
  assume "\<not> is_none c"
  then obtain cl ck cv ch cs cr where "c = Node cl ck cv ch cs cr" by (cases c) auto
  then show "\<exists>m. right_rotate (Node c k v h s r) = Inr m
         \<and> left_rotate m = Inr (recompute (Node (recompute c) k v h s r))
         \<and> skeleton (recompute (Node (recompute c) k v h s r)) = skeleton (Node c k v h s r)
         \<and> (fields_ok (Node c k v h s r) \<longrightarrow> left_rotate m = Inr (Node c k v h s r))"
    by auto
next
  assume a: "left_rotate t = Inr m"
  then have e: "entries m = entries t" by (induction t rule: left_rotate.induct) auto
  then show "entries m = entries t" "keys m = keys t" "length (entries m) = length (entries t)"
    by (simp_all add: keys_def)
next
  assume a: "right_rotate t = Inr m"
  then have e: "entries m = entries t" by (induction t rule: right_rotate.induct) auto
  then show "entries m = entries t" "keys m = keys t" "length (entries m) = length (entries t)"
    by (simp_all add: keys_def)
qed

theorem C9_rotations_witness:
  "left_rotate (Node Null (1::int) ''a'' 2 2 (Node Null 2 ''b'' 1 1 Null))
     = Inr (Node (Node Null 1 ''a'' 1 1 Null) 2 ''b'' 2 2 Null)
   \<and> right_rotate (Node (Node Null (1::int) ''a'' 1 1 Null) 2 ''b'' 2 2 Null)
     = Inr (Node Null 1 ''a'' 2 2 (Node Null 2 ''b'' 1 1 Null))
   \<and> entries (Node (Node Null (1::int) ''a'' 1 1 Null) 2 ''b'' 2 2 Null)
     = entries (Node Null (1::int) ''a'' 2 2 (Node Null 2 ''b'' 1 1 Null))"
  using C9_rotations[of "Node Null (2::int) ''b'' 1 1 Null" Null 1 "''a''" 2 2 Null
      "Node Null (1::int) ''a'' 2 2 (Node Null 2 ''b'' 1 1 Null)"
      "Node (Node Null (1::int) ''a'' 1 1 Null) 2 ''b'' 2 2 Null"]
  by simp

subsection \<open>Rank windows\<close>

lemma window_append:
  "window i j b (xs @ ys) = window i j b xs @ window i j (b + int (length xs)) ys"
  by (induction xs arbitrary: b) (auto simp: algebra_simps)

lemma window_below: "b + int (length xs) \<le> i \<Longrightarrow> window i j b xs = []"
  by (induction xs arbitrary: b) auto

lemma window_above: "j < b \<Longrightarrow> window i j b xs = []"
  by (induction xs arbitrary: b) auto

lemma window_slice:
  "window i j b xs = take (nat (j + 1 - b) - nat (i - b)) (drop (nat (i - b)) xs)"
proof (induction xs arbitrary: b)
  case Nil
  then show ?case by simp
next
  case (Cons x xs)
  consider (below) "b < i" | (inside) "i \<le> b \<and> b \<le> j" | (above) "i \<le> b \<and> j < b" by linarith
  then show ?case
  proof cases
    case below
    then have "nat (i - b) = Suc (nat (i - (b + 1)))" by simp
    moreover have "nat (j + 1 - b) - Suc (nat (i - (b + 1))) = nat (j + 1 - (b + 1)) - nat (i - (b + 1))"
      using below by (simp add: nat_diff_distrib')
    ultimately show ?thesis using below Cons.IH[of "b + 1"] by simp
  next
    case inside
    then have "nat (i - b) = 0" "nat (i - (b + 1)) = 0" by simp_all
    moreover have "nat (j + 1 - b) = Suc (nat (j + 1 - (b + 1)))" using inside by linarith
    ultimately show ?thesis using inside Cons.IH[of "b + 1"] by simp
  next
    case above
    then show ?thesis by (simp add: window_above)
  qed
qed

lemma range_between_aux_window:
  "fields_ok t \<Longrightarrow> m = b + int (length (entries t)) - 1 \<Longrightarrow>
   range_between_aux t i j m acc = acc @ window i j b (items t)"
proof (induction t arbitrary: m b acc)
  case Null
  then show ?case by (simp add: items_def)
next
  case (Node lt k v h s rt)
  from Node.prems(1) have fl: "fields_ok lt" and fr: "fields_ok rt" by auto
  define ci where "ci = b + int (length (entries lt))"
  have sz: "get_tree_size rt = int (length (entries rt))" using fr by (rule get_tree_size_entries)
  have ci: "(if is_none rt then m else m - get_tree_size rt) = ci"
    using Node.prems(2) sz by (cases rt) (auto simp: ci_def)
  have L: "\<And>acc. range_between_aux lt i j (ci - 1) acc = acc @ window i j b (items lt)"
    using Node.IH(1)[OF fl, of "ci - 1" b] by (simp add: ci_def)
  have R: "\<And>acc. range_between_aux rt i j m acc = acc @ window i j (ci + 1) (items rt)"
    using Node.IH(2)[OF fr, of m "ci + 1"] Node.prems(2) by (simp add: ci_def)
  have Lskip: "\<not> ci > i \<Longrightarrow> window i j b (items lt) = []"
    by (rule window_below) (simp add: items_def ci_def)
  have Rskip: "\<not> ci < j \<Longrightarrow> window i j (ci + 1) (items rt) = []"
    by (rule window_above) simp
  have l1: "(if ci > i then range_between_aux lt i j (ci - 1) acc else acc)
              = acc @ window i j b (items lt)"
    using L Lskip by (cases "ci > i") simp_all
  have l2: "\<And>X. (if i \<le> ci \<and> ci \<le> j then X @ [v] else X) = X @ window i j ci [v]"
    by simp
  have l3: "\<And>Y. (if ci < j then range_between_aux rt i j m Y else Y)
              = Y @ window i j (ci + 1) (items rt)"
    using R Rskip by (cases "ci < j") simp_all
  have unfold: "range_between_aux (Node lt k v h s rt) i j m acc =
      (let l1 = (if ci > i then range_between_aux lt i j (ci - 1) acc else acc);
           l2 = (if i \<le> ci \<and> ci \<le> j then l1 @ [v] else l1)
       in if ci < j then range_between_aux rt i j m l2 else l2)"
    by (simp only: range_between_aux.simps ci Let_def)
  have items: "items (Node lt k v h s rt) = items lt @ v # items rt" by (simp add: items_def)
  have len: "b + int (length (items lt)) = ci" by (simp add: items_def ci_def)
  have "window i j b (items (Node lt k v h s rt))
          = window i j b (items lt) @ window i j ci [v] @ window i j (ci + 1) (items rt)"
    unfolding items window_append len by simp
  then show ?case
    unfolding unfold Let_def l1 l2 l3 by simp
qed

subsection \<open>Rank range query\<close>

lemma range_between_window:
  assumes "tree_invariants T"
  shows "range_between T i j = (Inr (window i j 0 (items (root T))), T)"
proof -
  from assms have f: "fields_ok (root T)" and c: "length' T = int (length (entries (root T)))"
    by (auto simp: tree_invariants_def count_ok_def)
  from range_between_aux_window[OF f, of "length' T - 1" 0 i j "[]"] c
  show ?thesis by (simp add: range_between_def)
qed

text \<open>
  C2. On a tree satisfying the invariants, with \<open>0 \<le> i \<le> j < count\<close>,
  \<^verbatim>\<open>range_between(i, j)\<close> returns the items of the in-order entries at positions
  \<open>i\<close> to \<open>j\<close> inclusive, in that order, \<open>j - i + 1\<close> of them; the in-order entries
  are sorted by strictly ascending key, so this is the slice of the item list
  sorted by key.
\<close>

theorem C2_range_between_slice:
  assumes "tree_invariants T" and "0 \<le> i" and "i \<le> j" and "j < length' T"
  shows "range_between T i j
           = (Inr (map snd (take (nat (j - i + 1)) (drop (nat i) (entries (root T))))), T)
       \<and> sorted_wrt (<) (map fst (entries (root T)))
       \<and> int (length (take (nat (j - i + 1)) (drop (nat i) (entries (root T))))) = j - i + 1"
proof -
  from assms(1) have c: "length' T = int (length (entries (root T)))"
    and a: "ascending (root T)"
    by (auto simp: tree_invariants_def count_ok_def)
  have n: "nat (j + 1 - 0) - nat (i - 0) = nat (j - i + 1)" using assms(2,3) by linarith
  have "window i j 0 (items (root T)) = take (nat (j - i + 1)) (drop (nat i) (items (root T)))"
    using window_slice[of i j 0 "items (root T)"] n by simp
  then have 1: "range_between T i j
           = (Inr (map snd (take (nat (j - i + 1)) (drop (nat i) (entries (root T))))), T)"
    using range_between_window[OF assms(1), of i j] by (simp add: items_def take_map drop_map)
  have 2: "sorted_wrt (<) (map fst (entries (root T)))" using a by (simp add: ascending_def keys_def)
  have 3: "int (length (take (nat (j - i + 1)) (drop (nat i) (entries (root T))))) = j - i + 1"
    using assms(2,3,4) c by simp
  show ?thesis using 1 2 3 by simp
qed

theorem C2_range_between_slice_witness:
  "tree_invariants \<lparr>root = Node (Node Null (1::int) ''a'' 1 1 Null) 2 ''b'' 2 3 (Node Null 3 ''c'' 1 1 Null),
                     length' = 3\<rparr>
   \<and> (0::int) \<le> 1 \<and> (1::int) \<le> 2 \<and> (2::int) < 3
   \<and> fst (range_between \<lparr>root = Node (Node Null (1::int) ''a'' 1 1 Null) 2 ''b'' 2 3 (Node Null 3 ''c'' 1 1 Null),
                     length' = 3\<rparr> 1 2) = Inr [''b'', ''c'']"
proof -
  let ?T = "\<lparr>root = Node (Node Null (1::int) ''a'' 1 1 Null) 2 ''b'' 2 3 (Node Null 3 ''c'' 1 1 Null),
                     length' = 3\<rparr>"
  have inv: "tree_invariants ?T"
    by (simp add: tree_invariants_def count_ok_def ascending_def keys_def)
  have "nat (2 - 1 + 1) = Suc (Suc 0)" "nat 1 = Suc 0" by simp_all
  with C2_range_between_slice[OF inv, of 1 2]
  have "fst (range_between ?T 1 2) = Inr [''b'', ''c'']" by simp
  with inv show ?thesis by simp
qed

text \<open>
  C6, as stated, fails: \<^verbatim>\<open>range_between\<close> has no range check. On a
  one-element tree \<open>i = 1 > j = 0\<close> returns the empty list and \<open>j = 5 \<ge> count\<close>
  returns the part of the window that exists, both without an error.
\<close>

theorem C6_no_range_error_counterexample:
  "range_between \<lparr>root = Node Null (1::int) ''a'' 1 1 Null, length' = 1\<rparr> 1 0
     = (Inr [], \<lparr>root = Node Null 1 ''a'' 1 1 Null, length' = 1\<rparr>)
   \<and> range_between \<lparr>root = Node Null (1::int) ''a'' 1 1 Null, length' = 1\<rparr> 0 5
     = (Inr [''a''], \<lparr>root = Node Null 1 ''a'' 1 1 Null, length' = 1\<rparr>)
   \<and> range_between \<lparr>root = Node Null (1::int) ''a'' 1 1 Null, length' = 1\<rparr> (- 2) 0
     = (Inr [''a''], \<lparr>root = Node Null 1 ''a'' 1 1 Null, length' = 1\<rparr>)"
  by (simp add: range_between_def)

text \<open>
  C6, amended. On a tree satisfying the invariants \<^verbatim>\<open>range_between(i, j)\<close>
  returns for all integers \<open>i\<close> and \<open>j\<close>, without an error and with the tree
  as it was, the items at the ranks of the window \<open>i..j\<close> that exist in the
  tree, in ascending key order: the empty list when \<open>i > j\<close>, the ranks from 0
  when \<open>i < 0\<close>, the ranks up to the last when \<open>j \<ge> count\<close>.
\<close>

theorem C6_range_between_unchecked:
  assumes "tree_invariants T"
  shows "range_between T i j
           = (Inr (take (nat (j + 1) - nat i) (drop (nat i) (items (root T)))), T)
       \<and> (i > j \<longrightarrow> range_between T i j = (Inr [], T))"
proof -
  have 1: "range_between T i j
           = (Inr (take (nat (j + 1) - nat i) (drop (nat i) (items (root T)))), T)"
    using range_between_window[OF assms, of i j] window_slice[of i j 0 "items (root T)"]
    by simp
  have "i > j \<Longrightarrow> nat (j + 1) - nat i = 0" by simp
  with 1 show ?thesis by auto
qed

theorem C6_range_between_unchecked_witness:
  "tree_invariants \<lparr>root = Node (Node Null (1::int) ''a'' 1 1 Null) 2 ''b'' 2 3 (Node Null 3 ''c'' 1 1 Null),
                     length' = 3\<rparr>
   \<and> fst (range_between \<lparr>root = Node (Node Null (1::int) ''a'' 1 1 Null) 2 ''b'' 2 3 (Node Null 3 ''c'' 1 1 Null),
                     length' = 3\<rparr> 2 1) = Inr []
   \<and> fst (range_between \<lparr>root = Node (Node Null (1::int) ''a'' 1 1 Null) 2 ''b'' 2 3 (Node Null 3 ''c'' 1 1 Null),
                     length' = 3\<rparr> 1 7) = Inr [''b'', ''c'']"
proof -
  let ?T = "\<lparr>root = Node (Node Null (1::int) ''a'' 1 1 Null) 2 ''b'' 2 3 (Node Null 3 ''c'' 1 1 Null),
                     length' = 3\<rparr>"
  have inv: "tree_invariants ?T"
    by (simp add: tree_invariants_def count_ok_def ascending_def keys_def)
  from C6_range_between_unchecked[OF inv, of 2 1]
  have a: "fst (range_between ?T 2 1) = Inr []" by simp
  from C6_range_between_unchecked[OF inv, of 1 7]
  have b: "fst (range_between ?T 1 7) = Inr [''b'', ''c'']" by (simp add: items_def)
  from inv a b show ?thesis by simp
qed

section \<open>Properties of the hash table\<close>

subsection \<open>Probing\<close>

lemma probe_loop_found:
  "probe_loop n key False position chain st = (Inr p, st') \<Longrightarrow>
   0 \<le> p \<and> p < int (length (table st)) \<and> (\<exists>old. table st ! nat p = Some (key, old))
   \<and> probe_loop n key True position chain st = (Inr p, st')
   \<and> table st' = table st \<and> count st' = count st \<and> tablesize st' = tablesize st"
proof (induction n arbitrary: position chain st)
  case 0
  then show ?case by simp
next
  case (Suc n)
  show ?case
  proof (cases "position < 0 \<or> int (length (table st)) \<le> position")
    case True
    with Suc.prems show ?thesis by simp
  next
    case inrange: False
    show ?thesis
    proof (cases "table st ! nat position")
      case None
      with Suc.prems inrange show ?thesis by simp
    next
      case (Some kd)
      obtain k d where kd: "kd = (k, d)" by (cases kd)
      show ?thesis
      proof (cases "k = key")
        case True
        with Suc.prems inrange Some kd show ?thesis by (auto split: if_splits)
      next
        case False
        let ?st = "st\<lparr>probe_total := probe_total st + 1\<rparr>"
        from Suc.prems inrange Some kd False
        have "probe_loop n key False ((position + 1) mod int (length (table ?st))) (chain + 1) ?st = (Inr p, st')"
          by simp
        from Suc.IH[OF this] show ?thesis using inrange Some kd False by simp
      qed
    qed
  qed
qed

lemma probe_loop_insert:
  "probe_loop n key True position chain st = (Inr p, st') \<Longrightarrow>
   0 \<le> p \<and> p < int (length (table st))
   \<and> (table st ! nat p = None \<or> (\<exists>old. table st ! nat p = Some (key, old)))
   \<and> table st' = table st \<and> count st' = count st \<and> tablesize st' = tablesize st"
proof (induction n arbitrary: position chain st)
  case 0
  then show ?case by simp
next
  case (Suc n)
  show ?case
  proof (cases "position < 0 \<or> int (length (table st)) \<le> position")
    case True
    with Suc.prems show ?thesis by simp
  next
    case inrange: False
    show ?thesis
    proof (cases "table st ! nat position")
      case None
      with Suc.prems inrange show ?thesis by (auto split: if_splits)
    next
      case (Some kd)
      obtain k d where kd: "kd = (k, d)" by (cases kd)
      show ?thesis
      proof (cases "k = key")
        case True
        with Suc.prems inrange Some kd show ?thesis by (auto split: if_splits)
      next
        case False
        let ?st = "st\<lparr>probe_total := probe_total st + 1\<rparr>"
        from Suc.prems inrange Some kd False
        have "probe_loop n key True ((position + 1) mod int (length (table ?st))) (chain + 1) ?st = (Inr p, st')"
          by simp
        from Suc.IH[OF this] show ?thesis by simp
      qed
    qed
  qed
qed

lemma probe_loop_after_store:
  "probe_loop n key False position chain st = (Inr p, st1) \<Longrightarrow>
   table st2 = (table st)[nat p := Some (key, data)] \<Longrightarrow>
   \<exists>st3. probe_loop n key False position chain st2 = (Inr p, st3) \<and> table st3 = table st2"
proof (induction n arbitrary: position chain st st2)
  case 0
  then show ?case by simp
next
  case (Suc n)
  from probe_loop_found[OF Suc.prems(1)]
  have p: "0 \<le> p" "p < int (length (table st))" by auto
  have len: "length (table st2) = length (table st)" using Suc.prems(2) by simp
  show ?case
  proof (cases "position < 0 \<or> int (length (table st)) \<le> position")
    case True
    with Suc.prems show ?thesis by simp
  next
    case inrange: False
    show ?thesis
    proof (cases "position = p")
      case True
      then have "table st2 ! nat position = Some (key, data)"
        using Suc.prems(2) p by simp
      then show ?thesis using inrange len True by (auto split: if_splits)
    next
      case np: False
      then have same: "table st2 ! nat position = table st ! nat position"
        using Suc.prems(2) inrange p by (simp add: nat_eq_iff)
      show ?thesis
      proof (cases "table st ! nat position")
        case None
        with Suc.prems inrange show ?thesis by simp
      next
        case (Some kd)
        obtain k d where kd: "kd = (k, d)" by (cases kd)
        have nk: "k \<noteq> key" using Suc.prems(1) inrange Some kd np by (auto split: if_splits)
        let ?st = "st\<lparr>probe_total := probe_total st + 1\<rparr>"
        let ?st2 = "st2\<lparr>probe_total := probe_total st2 + 1\<rparr>"
        from Suc.prems inrange Some kd nk
        have a: "probe_loop n key False ((position + 1) mod int (length (table ?st))) (chain + 1) ?st = (Inr p, st1)"
          by simp
        have b: "table ?st2 = (table ?st)[nat p := Some (key, data)]" using Suc.prems(2) by simp
        from Suc.IH[OF a b] show ?thesis using inrange Some kd nk same len by simp
      qed
    qed
  qed
qed

lemma linear_probe_found:
  assumes "linear_probe st key False = (Inr p, st1)"
    and "tablesize st = int (length (table st))" and "\<not> 2 * count st > tablesize st"
  shows "0 \<le> p \<and> p < int (length (table st)) \<and> (\<exists>old. table st ! nat p = Some (key, old))
       \<and> linear_probe st key True = (Inr p, st1)
       \<and> table st1 = table st \<and> count st1 = count st"
proof -
  from assms(1) obtain h where h: "hash st key = Inr h"
    and pl: "probe_loop (length (table st)) key False h 0 st = (Inr p, st1)"
    by (auto simp: linear_probe_def split: sum.splits)
  from probe_loop_found[OF pl] have f: "0 \<le> p" "p < int (length (table st))"
    "\<exists>old. table st ! nat p = Some (key, old)"
    "probe_loop (length (table st)) key True h 0 st = (Inr p, st1)"
    "table st1 = table st" "count st1 = count st"
    by auto
  have "\<not> is_full st" using f(1,2) assms(2,3) by (auto simp: is_full_def)
  then have "linear_probe st key True = (Inr p, st1)"
    using h f(4) by (simp add: linear_probe_def)
  with f show ?thesis by simp
qed

lemma linear_probe_after_store:
  assumes "linear_probe st key False = (Inr p, st1)"
    and "table st2 = (table st)[nat p := Some (key, data)]"
  shows "\<exists>st3. linear_probe st2 key False = (Inr p, st3) \<and> table st3 = table st2"
proof -
  from assms(1) obtain h where h: "hash st key = Inr h"
    and pl: "probe_loop (length (table st)) key False h 0 st = (Inr p, st1)"
    by (auto simp: linear_probe_def split: sum.splits)
  have len: "length (table st2) = length (table st)" using assms(2) by simp
  then have "hash st2 key = Inr h" using h by (simp add: hash_def)
  moreover from probe_loop_after_store[OF pl assms(2)] len
  obtain st3 where "probe_loop (length (table st2)) key False h 0 st2 = (Inr p, st3)"
    "table st3 = table st2" by auto
  ultimately show ?thesis by (simp add: linear_probe_def)
qed

lemma linear_probe_insert:
  assumes "linear_probe st key True = (Inr p, st1)"
  shows "0 \<le> p \<and> p < int (length (table st))
       \<and> table st1 = table st \<and> count st1 = count st"
proof -
  from assms obtain h where "probe_loop (length (table st)) key True h 0 st = (Inr p, st1)"
    by (auto simp: linear_probe_def split: sum.splits if_splits)
  from probe_loop_insert[OF this] show ?thesis by simp
qed

text \<open>
  C10, as stated, fails when \<^verbatim>\<open>__setitem__\<close> rehashes. A table of 3 slots
  gets \<open>''a''\<close> (slot 1) and \<open>''b''\<close> (slot 2). Setting the present key
  \<open>''a''\<close> again finds \<open>count = 2 > 3 / 2\<close>, moves both pairs into a new array
  of 5 slots and stores there: slot 2, which held the pair of \<open>''b''\<close>, now
  holds the pair of \<open>''a''\<close>, and the pair of \<open>''b''\<close> is in slot 3.
\<close>

theorem C10_rehash_moves_slots_counterexample:
  "setitem 0 (new_table 2 3) ''a'' (1::int)
     = Some (Inr (), \<lparr>expected_size = 2, tablesize = 3, table = [None, Some (''a'', 1), None],
                      count = 1, conflict_count = 0, probe_total = 0, probe_max = 0, rehash_count = 0\<rparr>)
   \<and> setitem 0 \<lparr>expected_size = 2, tablesize = 3, table = [None, Some (''a'', 1::int), None],
                      count = 1, conflict_count = 0, probe_total = 0, probe_max = 0, rehash_count = 0\<rparr>
         ''b'' 2
     = Some (Inr (), \<lparr>expected_size = 2, tablesize = 3, table = [None, Some (''a'', 1), Some (''b'', 2)],
                      count = 2, conflict_count = 0, probe_total = 0, probe_max = 0, rehash_count = 0\<rparr>)
   \<and> fst (contains \<lparr>expected_size = 2, tablesize = 3,
                      table = [None, Some (''a'', 1::int), Some (''b'', 2)],
                      count = 2, conflict_count = 0, probe_total = 0, probe_max = 0, rehash_count = 0\<rparr>
         ''a'') = Inr True
   \<and> setitem 1 \<lparr>expected_size = 2, tablesize = 3,
                      table = [None, Some (''a'', 1::int), Some (''b'', 2)],
                      count = 2, conflict_count = 0, probe_total = 0, probe_max = 0, rehash_count = 0\<rparr>
         ''a'' 9
     = Some (Inr (), \<lparr>expected_size = 2, tablesize = 5,
                      table = [None, None, Some (''a'', 9), Some (''b'', 2), None],
                      count = 2, conflict_count = 0, probe_total = 0, probe_max = 0, rehash_count = 1\<rparr>)"
  by code_simp

text \<open>
  C10, amended. Take a table whose \<^verbatim>\<open>tablesize\<close> is the length of its array
  and a call of \<^verbatim>\<open>__setitem__\<close> that does not rehash (\<open>count \<le> tablesize / 2\<close>).
  If the key is present (\<^verbatim>\<open>key in table\<close> is true), the call succeeds, the
  key's slot gets the new data and a lookup of the key then yields it, the
  count is unchanged, and every other slot is as it was. In every call that
  succeeds, rehashing or not, exactly one slot of the array that is probed
  (the rehashed one after a rehash, the table's own otherwise) is written, and
  the count of that table grows by 1 exactly when that slot was empty.
\<close>

theorem C10_setitem_without_rehash:
  "(tablesize st = int (length (table st)) \<and> \<not> 2 * count st > tablesize st
      \<and> fst (contains st key) = Inr True \<longrightarrow>
          (\<exists>st' p old. setitem fuel st key data = Some (Inr (), st')
             \<and> p < length (table st)
             \<and> table st ! p = Some (key, old)
             \<and> table st' = (table st)[p := Some (key, data)]
             \<and> fst (getitem st' key) = Inr data
             \<and> count st' = count st
             \<and> (\<forall>i. i \<noteq> p \<longrightarrow> table st' ! i = table st ! i)))
   \<and> (setitem fuel st key data = Some (Inr (), st2) \<longrightarrow>
          (\<exists>st1 p.
             (if 2 * count st > tablesize st
              then \<exists>f. fuel = Suc f \<and> rehash f st = Some (Inr (), st1)
              else st1 = st)
             \<and> p < length (table st1)
             \<and> table st2 = (table st1)[p := Some (key, data)]
             \<and> count st2 = (if table st1 ! p = None then count st1 + 1 else count st1)))"
proof (intro conjI impI)
  assume a: "tablesize st = int (length (table st)) \<and> \<not> 2 * count st > tablesize st
      \<and> fst (contains st key) = Inr True"
  then have ts: "tablesize st = int (length (table st))" and nr: "\<not> 2 * count st > tablesize st"
    by auto
  from a obtain pos st1 where lp: "linear_probe st key False = (Inr pos, st1)"
    by (auto simp: contains_def getitem_def split: prod.splits sum.splits option.splits if_splits)
  from linear_probe_found[OF lp ts nr] obtain old where
    f: "0 \<le> pos" "pos < int (length (table st))" "table st ! nat pos = Some (key, old)"
      "linear_probe st key True = (Inr pos, st1)" "table st1 = table st" "count st1 = count st"
    by auto
  define st' where "st' = st1\<lparr>count := count st1, table := (table st1)[nat pos := Some (key, data)]\<rparr>"
  have 1: "setitem fuel st key data = Some (Inr (), st')"
    using nr f(3,4,5) by (simp add: probe_and_store_def st'_def)
  have 2: "nat pos < length (table st)" using f(1,2) by simp
  have 3: "table st' = (table st)[nat pos := Some (key, data)]" using f(5) by (simp add: st'_def)
  from linear_probe_after_store[OF lp 3] obtain st3 where
    "linear_probe st' key False = (Inr pos, st3)" "table st3 = table st'" by auto
  then have 4: "fst (getitem st' key) = Inr data"
    using 2 3 by (simp add: getitem_def)
  have 5: "count st' = count st" using f(6) by (simp add: st'_def)
  have 6: "\<forall>i. i \<noteq> nat pos \<longrightarrow> table st' ! i = table st ! i" using 3 by simp
  show "\<exists>st' p old. setitem fuel st key data = Some (Inr (), st')
             \<and> p < length (table st)
             \<and> table st ! p = Some (key, old)
             \<and> table st' = (table st)[p := Some (key, data)]
             \<and> fst (getitem st' key) = Inr data
             \<and> count st' = count st
             \<and> (\<forall>i. i \<noteq> p \<longrightarrow> table st' ! i = table st ! i)"
    using 1 2 f(3) 3 4 5 6 by blast
next
  assume run: "setitem fuel st key data = Some (Inr (), st2)"
  have "\<exists>st1. (if 2 * count st > tablesize st
              then \<exists>f. fuel = Suc f \<and> rehash f st = Some (Inr (), st1)
              else st1 = st)
           \<and> probe_and_store st1 key data = (Inr (), st2)"
  proof (cases "2 * count st > tablesize st")
    case True
    with run obtain f where fu: "fuel = Suc f" by (cases fuel) auto
    with run True obtain st1 where "rehash f st = Some (Inr (), st1)"
      "probe_and_store st1 key data = (Inr (), st2)"
      by (auto simp del: rehash.simps split: option.splits prod.splits sum.splits)
    with True fu show ?thesis by auto
  next
    case False
    with run show ?thesis by simp
  qed
  then obtain st1 where w: "if 2 * count st > tablesize st
              then \<exists>f. fuel = Suc f \<and> rehash f st = Some (Inr (), st1)
              else st1 = st"
    and ps: "probe_and_store st1 key data = (Inr (), st2)"
    by blast
  from ps obtain pos st1' where lp: "linear_probe st1 key True = (Inr pos, st1')"
    and st2: "st2 = st1'\<lparr>count := (if table st1' ! nat pos = None then count st1' + 1 else count st1'),
                table := (table st1')[nat pos := Some (key, data)]\<rparr>"
    by (auto simp: probe_and_store_def split: prod.splits sum.splits)
  from linear_probe_insert[OF lp] have
    f: "0 \<le> pos" "pos < int (length (table st1))" "table st1' = table st1" "count st1' = count st1"
    by auto
  have "nat pos < length (table st1)" using f(1,2) by simp
  moreover have "table st2 = (table st1)[nat pos := Some (key, data)]" using st2 f(3) by simp
  moreover have "count st2 = (if table st1 ! nat pos = None then count st1 + 1 else count st1)"
    using st2 f(3,4) by simp
  ultimately show "\<exists>st1 p.
             (if 2 * count st > tablesize st
              then \<exists>f. fuel = Suc f \<and> rehash f st = Some (Inr (), st1)
              else st1 = st)
             \<and> p < length (table st1)
             \<and> table st2 = (table st1)[p := Some (key, data)]
             \<and> count st2 = (if table st1 ! p = None then count st1 + 1 else count st1)"
    using w by blast
qed

theorem C10_setitem_without_rehash_witness:
  "tablesize \<lparr>expected_size = 2, tablesize = 5,
        table = [None, None, Some (''a'', 9::int), Some (''b'', 2), None],
        count = 2, conflict_count = 0, probe_total = 0, probe_max = 0, rehash_count = 1\<rparr>
     = int (length [None, None, Some (''a'', 9::int), Some (''b'', 2), None])
   \<and> \<not> 2 * (2::int) > 5
   \<and> fst (contains \<lparr>expected_size = 2, tablesize = 5,
        table = [None, None, Some (''a'', 9::int), Some (''b'', 2), None],
        count = 2, conflict_count = 0, probe_total = 0, probe_max = 0, rehash_count = 1\<rparr> ''b'') = Inr True
   \<and> setitem 0 \<lparr>expected_size = 2, tablesize = 5,
        table = [None, None, Some (''a'', 9::int), Some (''b'', 2), None],
        count = 2, conflict_count = 0, probe_total = 0, probe_max = 0, rehash_count = 1\<rparr> ''b'' 7
     = Some (Inr (), \<lparr>expected_size = 2, tablesize = 5,
        table = [None, None, Some (''a'', 9), Some (''b'', 7), None],
        count = 2, conflict_count = 0, probe_total = 0, probe_max = 0, rehash_count = 1\<rparr>)"
proof -
  let ?st = "\<lparr>expected_size = 2, tablesize = 5,
        table = [None, None, Some (''a'', 9::int), Some (''b'', 2), None],
        count = 2, conflict_count = 0, probe_total = 0, probe_max = 0, rehash_count = 1\<rparr>"
  have a: "tablesize ?st = int (length (table ?st))" by simp
  have b: "\<not> 2 * count ?st > tablesize ?st" by simp
  have c: "fst (contains ?st ''b'') = Inr True" by code_simp
  have d: "setitem 0 ?st ''b'' 7 = Some (Inr (), \<lparr>expected_size = 2, tablesize = 5,
        table = [None, None, Some (''a'', 9), Some (''b'', 7), None],
        count = 2, conflict_count = 0, probe_total = 0, probe_max = 0, rehash_count = 1\<rparr>)"
    by code_simp
  from C10_setitem_without_rehash[of ?st "''b''" 0 7] a b c
  have "\<exists>st'. setitem 0 ?st ''b'' 7 = Some (Inr (), st') \<and> count st' = count ?st" by blast
  with a b c d show ?thesis by simp
qed

end
